theory Spec2Isabelle
  imports Main "HOL-Library.AList"
begin

section \<open>JavaScript strings\<close>

text \<open>
  A JavaScript string is a sequence of UTF-16 code units.  Literals of the source are
  written \<open>str ''...''\<close>.  \<open>isWhiteSpace\<close> is the class \<^verbatim>\<open>\s\<close> of a regular
  expression without the unicode flag, which is also what \<^verbatim>\<open>String.prototype.trim\<close>
  removes: TAB, LF, VT, FF, CR, SP, NBSP, U+1680, U+2000..U+200A, U+2028, U+2029, U+202F,
  U+205F, U+3000 and U+FEFF.
\<close>

type_synonym jsstring = "nat list"

definition str :: "string \<Rightarrow> jsstring" where
  "str s = map of_char s"

definition isWhiteSpace :: "nat \<Rightarrow> bool" where
  "isWhiteSpace c \<longleftrightarrow>
     c = 9 \<or> c = 10 \<or> c = 11 \<or> c = 12 \<or> c = 13 \<or> c = 32 \<or> c = 160 \<or> c = 5760 \<or>
     (8192 \<le> c \<and> c \<le> 8202) \<or> c = 8232 \<or> c = 8233 \<or> c = 8239 \<or> c = 8287 \<or>
     c = 12288 \<or> c = 65279"

text \<open>\<^verbatim>\<open>s.trim()\<close>\<close>

definition trim :: "jsstring \<Rightarrow> jsstring" where
  "trim s = rev (dropWhile isWhiteSpace (rev (dropWhile isWhiteSpace s)))"

text \<open>\<open>stripPrefix p s\<close> is the rest of \<open>s\<close> after the literal \<open>p\<close>, if \<open>s\<close> starts with it.\<close>

fun stripPrefix :: "jsstring \<Rightarrow> jsstring \<Rightarrow> jsstring option" where
  "stripPrefix [] s = Some s"
| "stripPrefix (p # ps) [] = None"
| "stripPrefix (p # ps) (c # cs) = (if p = c then stripPrefix ps cs else None)"

text \<open>\<^verbatim>\<open>s.includes(pat)\<close>\<close>

fun js_includes :: "jsstring \<Rightarrow> jsstring \<Rightarrow> bool" where
  "js_includes [] pat = (pat = [])"
| "js_includes (c # cs) pat = (stripPrefix pat (c # cs) \<noteq> None \<or> js_includes cs pat)"

section \<open>The readiness pattern\<close>

text \<open>
  \<^verbatim>\<open>/Browse at\s+(http:\/\/[^\s]+)/\<close> tried at the start of \<open>s\<close>; the result is capture
  group 1.  Both quantifiers are greedy and neither can give a character back: the run of
  white space is followed by the letter h, and nothing follows the run of other characters.
\<close>

definition browseAtHere :: "jsstring \<Rightarrow> jsstring option" where
  "browseAtHere s =
     (case stripPrefix (str ''Browse at'') s of
        None \<Rightarrow> None
      | Some r1 \<Rightarrow>
          if takeWhile isWhiteSpace r1 = [] then None
          else (case stripPrefix (str ''http://'') (dropWhile isWhiteSpace r1) of
                  None \<Rightarrow> None
                | Some r2 \<Rightarrow>
                    if takeWhile (\<lambda>c. \<not> isWhiteSpace c) r2 = [] then None
                    else Some (str ''http://'' @ takeWhile (\<lambda>c. \<not> isWhiteSpace c) r2)))"

text \<open>\<^verbatim>\<open>output.match(/Browse at\s+(http:\/\/[^\s]+)/)\<close>: the leftmost match, its group 1.\<close>

fun regexMatch :: "jsstring \<Rightarrow> jsstring option" where
  "regexMatch [] = browseAtHere []"
| "regexMatch (c # cs) =
     (case browseAtHere (c # cs) of Some u \<Rightarrow> Some u | None \<Rightarrow> regexMatch cs)"

text \<open>
  The test of the stdout handler on one chunk \<open>output\<close> (main.ts, lines 155 to 158):
  \<^verbatim>\<open>output.includes('Browse at')\<close>, then the match, then \<^verbatim>\<open>match && match[1]\<close>.
\<close>

definition previewUrlOf :: "jsstring \<Rightarrow> jsstring option" where
  "previewUrlOf output =
     (if js_includes output (str ''Browse at'')
      then (case regexMatch output of
              None \<Rightarrow> None
            | Some u \<Rightarrow> if u = [] then None else Some u)
      else None)"

text \<open>
  The marker as the specification words it: the literal \<open>Browse at\<close>, white space, and a
  URL that begins with \<open>http://\<close> or \<open>https://\<close>.  It differs from \<open>browseAtHere\<close> in the
  second scheme only.
\<close>

definition spec_markerHere :: "jsstring \<Rightarrow> jsstring option" where
  "spec_markerHere s =
     (case stripPrefix (str ''Browse at'') s of
        None \<Rightarrow> None
      | Some r1 \<Rightarrow>
          if takeWhile isWhiteSpace r1 = [] then None
          else (let r = dropWhile isWhiteSpace r1; u = takeWhile (\<lambda>c. \<not> isWhiteSpace c) r in
                if stripPrefix (str ''http://'') u \<noteq> None \<or> stripPrefix (str ''https://'') u \<noteq> None
                then Some u else None))"

fun spec_marker :: "jsstring \<Rightarrow> jsstring option" where
  "spec_marker [] = spec_markerHere []"
| "spec_marker (c # cs) =
     (case spec_markerHere (c # cs) of Some u \<Rightarrow> Some u | None \<Rightarrow> spec_marker cs)"

section \<open>Settings\<close>

text \<open>
  \<^verbatim>\<open>Object.assign({}, DEFAULT_SETTINGS, await this.loadData())\<close>: an object is the list of
  its own properties in insertion order; a source that is null or undefined is skipped.
  \<open>Object.assign\<close> sets each own property of the source on the target.  On the plain
  object that is the target here, that makes or overwrites an own property for every key but
  \<open>__proto__\<close>: this key goes to the setter of \<open>Object.prototype\<close>, which makes no own
  property (it replaces the prototype when the value is an object or null; the prototype is
  not in the model, and an own property is what a read finds first).
\<close>

datatype jsvalue =
    JString jsstring | JBool bool | JNumber int | JNull | JArray "jsvalue list"
  | JObject "(jsstring \<times> jsvalue) list"

type_synonym jsobject = "(jsstring \<times> jsvalue) list"

definition DEFAULT_SETTINGS :: jsobject where
  "DEFAULT_SETTINGS =
     [(str ''quartoPath'', JString (str ''quarto'')),
      (str ''autoPreview'', JBool False),
      (str ''enableQmdLinking'', JBool False),
      (str ''useWebViewer'', JBool True)]"

definition assign :: "jsobject \<Rightarrow> jsobject option \<Rightarrow> jsobject" where
  "assign target source =
     (case source of
        None \<Rightarrow> target
      | Some props \<Rightarrow>
          fold (\<lambda>(k, v) t. if k = str ''__proto__'' then t else AList.update k v t) props target)"

definition loadSettings :: "jsobject option \<Rightarrow> jsobject" where
  "loadSettings data = assign (assign [] (Some DEFAULT_SETTINGS)) data"

text \<open>The settings as the plugin reads them (interface QmdPluginSettings).\<close>

record settings =
  quartoPath :: jsstring
  autoPreview :: bool
  enableQmdLinking :: bool
  useWebViewer :: bool

section \<open>The host and the plugin state\<close>

text \<open>
  What the plugin takes from its host: \<^verbatim>\<open>adapter.getFullPath\<close>, \<^verbatim>\<open>path.dirname\<close>,
  \<^verbatim>\<open>Platform.isMobile\<close>, whether \<^verbatim>\<open>workspace.getRightLeaf(false)\<close> yields a leaf, and
  \<^verbatim>\<open>process.env\<close>.
\<close>

record host =
  getFullPath :: "jsstring \<Rightarrow> jsstring"
  dirname :: "jsstring \<Rightarrow> jsstring"
  isMobile :: bool
  rightLeaf :: bool
  processEnv :: "jsstring \<rightharpoonup> jsstring"

record tfile =
  path :: jsstring
  extension :: jsstring

datatype promise = Pending | Resolved "jsstring option"

text \<open>
  A ChildProcess together with what the call that spawned it attached to it: whether the
  \<open>close\<close> and \<open>error\<close> listeners and the \<open>data\<close> listener on stdout are in place, the
  pending timer (its delay in ms), the promise returned by \<open>startPreviewAndGetUrl\<close>, and
  \<open>capturedPath\<close>, the \<^verbatim>\<open>file.path\<close> those closures hold.  \<open>killCalls\<close> counts the
  invocations of \<^verbatim>\<open>kill()\<close>.  \<open>handle\<close> says that the ChildProcess still has its handle and
  the system takes a signal for it; it is lost when the spawn fails or the process exits,
  which the plugin is not told, and at the latest when \<open>close\<close> is emitted.  \<open>killed\<close> is
  the flag of that name.
\<close>

record child =
  spawnfile :: jsstring
  spawnargs :: "jsstring list"
  spawncwd :: jsstring
  spawnenv :: "jsstring \<rightharpoonup> jsstring"
  killed :: bool
  killCalls :: nat
  handle :: bool
  capturedPath :: jsstring
  onClose :: bool
  onError :: bool
  onData :: bool
  timeoutId :: "nat option"
  promise :: "promise option"

record leaf =
  viewUrl :: jsstring
  detached :: bool

text \<open>
  The plugin object.  The two maps are lists in insertion order; a process or a leaf is
  named by its index in \<open>children\<close> or \<open>leaves\<close>, which hold every one ever created.
\<close>

record plugin =
  settings :: settings
  activePreviewProcesses :: "(jsstring \<times> nat) list"
  activeWebViewers :: "(jsstring \<times> nat) list"
  children :: "child list"
  leaves :: "leaf list"
  notices :: "jsstring list"
  fileOpenHook :: bool

text \<open>
  The plugin after \<open>onload\<close> with the settings \<open>s\<close>: both maps are empty, and the
  \<open>file-open\<close> handler is registered when \<open>autoPreview\<close> is set.
\<close>

definition init :: "settings \<Rightarrow> plugin" where
  "init s =
     \<lparr>settings = s, activePreviewProcesses = [], activeWebViewers = [], children = [],
      leaves = [], notices = [], fileOpenHook = autoPreview s\<rparr>"

text \<open>\<^verbatim>\<open>new Notice(msg)\<close>\<close>

definition notice :: "jsstring \<Rightarrow> plugin \<Rightarrow> plugin" where
  "notice msg st = st\<lparr>notices := notices st @ [msg]\<rparr>"

definition updChild :: "nat \<Rightarrow> (child \<Rightarrow> child) \<Rightarrow> plugin \<Rightarrow> plugin" where
  "updChild pid f st = st\<lparr>children := (children st)[pid := f (children st ! pid)]\<rparr>"

text \<open>\<^verbatim>\<open>spawn(command, args, { cwd })\<close>: no \<open>env\<close> option, so the child inherits \<^verbatim>\<open>process.env\<close>.\<close>

definition spawn :: "host \<Rightarrow> jsstring \<Rightarrow> jsstring list \<Rightarrow> jsstring \<Rightarrow> plugin \<Rightarrow> nat \<times> plugin" where
  "spawn h command args dir st =
     (length (children st),
      st\<lparr>children := children st @
        [\<lparr>spawnfile = command, spawnargs = args, spawncwd = dir, spawnenv = processEnv h,
          killed = False, killCalls = 0, handle = True, capturedPath = [], onClose = False,
          onError = False, onData = False, timeoutId = None, promise = None\<rparr>]\<rparr>)"

text \<open>
  \<^verbatim>\<open>process.kill()\<close>: one more invocation.  With the handle the signal is delivered and
  \<open>killed\<close> is set; without it nothing is sent and \<open>killed\<close> stays as it is.  The results
  of the system call on which Node emits \<open>error\<close> or throws (no permission, no such signal)
  are not in the model: the signal is SIGTERM, sent to a child of the plugin's own process.
\<close>

definition kill :: "nat \<Rightarrow> plugin \<Rightarrow> plugin" where
  "kill pid st =
     updChild pid (\<lambda>c. c\<lparr>killCalls := Suc (killCalls c), killed := (killed c \<or> handle c)\<rparr>) st"

section \<open>The operations of src/main.ts\<close>

definition isQuartoFile :: "tfile \<Rightarrow> bool" where
  "isQuartoFile f \<longleftrightarrow> extension f = str ''qmd''"

text \<open>
  \<open>cleanup\<close> of \<open>startPreviewAndGetUrl\<close>: \<^verbatim>\<open>clearTimeout(timeoutId)\<close> and
  \<^verbatim>\<open>process.removeAllListeners()\<close>.  The latter empties the listeners of the ChildProcess
  itself (\<open>error\<close>, \<open>close\<close>); the \<open>data\<close> listener sits on \<^verbatim>\<open>process.stdout\<close> and stays.
\<close>

definition cleanup :: "nat \<Rightarrow> plugin \<Rightarrow> plugin" where
  "cleanup pid st = updChild pid (\<lambda>c. c\<lparr>timeoutId := None, onClose := False, onError := False\<rparr>) st"

text \<open>
  What \<open>toggleWebViewer\<close> does once the awaited promise is settled with \<open>previewUrl\<close>
  (lines 119 to 131).  \<^verbatim>\<open>leaf.setViewState\<close> is taken to complete at once.
\<close>

definition showWebViewer :: "host \<Rightarrow> jsstring \<Rightarrow> jsstring option \<Rightarrow> plugin \<Rightarrow> plugin" where
  "showWebViewer h key previewUrl st =
     (case previewUrl of
        None \<Rightarrow> st
      | Some u \<Rightarrow>
          if u = [] then st
          else if \<not> rightLeaf h then notice (str ''Failed to create preview pane'') st
          else st\<lparr>leaves := leaves st @ [\<lparr>viewUrl = u, detached = False\<rparr>],
                  activeWebViewers := AList.update key (length (leaves st)) (activeWebViewers st)\<rparr>)"

text \<open>
  \<^verbatim>\<open>resolve(v)\<close> on the promise of process \<open>pid\<close>, awaited by \<open>toggleWebViewer\<close> for the
  document \<open>key\<close>: it settles a pending promise and is ignored on a settled one.
\<close>

definition resolve :: "host \<Rightarrow> jsstring \<Rightarrow> nat \<Rightarrow> jsstring option \<Rightarrow> plugin \<Rightarrow> plugin" where
  "resolve h key pid v st =
     (if promise (children st ! pid) = Some Pending
      then showWebViewer h key v (updChild pid (\<lambda>c. c\<lparr>promise := Some (Resolved v)\<rparr>) st)
      else st)"

text \<open>\<open>startPreviewAndGetUrl\<close> (lines 135 to 180); the result names the promise by its process.\<close>

definition startPreviewAndGetUrl :: "host \<Rightarrow> tfile \<Rightarrow> plugin \<Rightarrow> nat \<times> plugin" where
  "startPreviewAndGetUrl h f st =
     (let filePath = getFullPath h (path f);
          workingDir = dirname h filePath;
          (pid, st1) = spawn h (quartoPath (settings st)) [str ''preview'', filePath] workingDir st;
          st2 = updChild pid
                  (\<lambda>c. c\<lparr>capturedPath := path f, timeoutId := Some 10000, onData := True,
                          onError := True, onClose := True, promise := Some Pending\<rparr>) st1
      in (pid, st2\<lparr>activePreviewProcesses :=
                     AList.update (path f) pid (activePreviewProcesses st2)\<rparr>))"

text \<open>\<open>startPreview\<close> (lines 190 to 205)\<close>

definition startPreview :: "host \<Rightarrow> tfile \<Rightarrow> plugin \<Rightarrow> plugin" where
  "startPreview h f st =
     (if map_of (activePreviewProcesses st) (path f) \<noteq> None then st
      else
        (let filePath = getFullPath h (path f);
             workingDir = dirname h filePath;
             (pid, st1) = spawn h (quartoPath (settings st)) [str ''preview'', filePath] workingDir st;
             st2 = updChild pid (\<lambda>c. c\<lparr>capturedPath := path f, onClose := True\<rparr>) st1
         in st2\<lparr>activePreviewProcesses :=
                  AList.update (path f) pid (activePreviewProcesses st2)\<rparr>))"

text \<open>\<open>stopPreview\<close> (lines 207 to 215)\<close>

definition stopPreview :: "tfile \<Rightarrow> plugin \<Rightarrow> plugin" where
  "stopPreview f st =
     (case map_of (activePreviewProcesses st) (path f) of
        None \<Rightarrow> st
      | Some pid \<Rightarrow>
          (let st1 = (if \<not> killed (children st ! pid) then kill pid st else st)
           in st1\<lparr>activePreviewProcesses := AList.delete (path f) (activePreviewProcesses st1)\<rparr>))"

text \<open>\<open>stopAllPreviews\<close> (lines 217 to 224)\<close>

definition killUnlessKilled :: "nat \<Rightarrow> plugin \<Rightarrow> plugin" where
  "killUnlessKilled pid st = (if \<not> killed (children st ! pid) then kill pid st else st)"

definition stopAllPreviews :: "plugin \<Rightarrow> plugin" where
  "stopAllPreviews st =
     (fold killUnlessKilled (map snd (activePreviewProcesses st)) st)\<lparr>activePreviewProcesses := []\<rparr>"

text \<open>\<open>toggleExternalPreview\<close> (lines 182 to 188)\<close>

definition toggleExternalPreview :: "host \<Rightarrow> tfile \<Rightarrow> plugin \<Rightarrow> plugin" where
  "toggleExternalPreview h f st =
     (if map_of (activePreviewProcesses st) (path f) \<noteq> None then stopPreview f st
      else startPreview h f st)"

text \<open>
  \<open>toggleWebViewer\<close> (lines 111 to 133), up to the await; the rest is \<open>showWebViewer\<close>,
  run by \<open>resolve\<close>.
\<close>

definition detach :: "nat \<Rightarrow> plugin \<Rightarrow> plugin" where
  "detach l st = st\<lparr>leaves := (leaves st)[l := (leaves st ! l)\<lparr>detached := True\<rparr>]\<rparr>"

definition toggleWebViewer :: "host \<Rightarrow> tfile \<Rightarrow> plugin \<Rightarrow> plugin" where
  "toggleWebViewer h f st =
     (case map_of (activeWebViewers st) (path f) of
        Some l \<Rightarrow>
          stopPreview f
            ((detach l st)\<lparr>activeWebViewers := AList.delete (path f) (activeWebViewers st)\<rparr>)
      | None \<Rightarrow> snd (startPreviewAndGetUrl h f st))"

text \<open>\<open>togglePreview\<close> (lines 103 to 109)\<close>

definition togglePreview :: "host \<Rightarrow> tfile \<Rightarrow> plugin \<Rightarrow> plugin" where
  "togglePreview h f st =
     (if useWebViewer (settings st) \<and> \<not> isMobile h then toggleWebViewer h f st
      else toggleExternalPreview h f st)"

text \<open>
  The callback of the ribbon icon and of the command \<open>toggle-quarto-preview\<close> (lines 44 to
  64); \<open>active\<close> is \<^verbatim>\<open>activeView?.file\<close>.
\<close>

definition toggleCallback :: "host \<Rightarrow> tfile option \<Rightarrow> plugin \<Rightarrow> plugin" where
  "toggleCallback h active st =
     (case active of
        None \<Rightarrow> notice (str ''Current file is not a Quarto document'') st
      | Some f \<Rightarrow>
          if isQuartoFile f then togglePreview h f st
          else notice (str ''Current file is not a Quarto document'') st)"

text \<open>The \<open>file-open\<close> handler, registered by \<open>onload\<close> when \<open>autoPreview\<close> is set (lines 66 to 74).\<close>

definition fileOpenHandler :: "host \<Rightarrow> tfile option \<Rightarrow> plugin \<Rightarrow> plugin" where
  "fileOpenHandler h opened st =
     (case opened of
        None \<Rightarrow> st
      | Some f \<Rightarrow> if fileOpenHook st \<and> isQuartoFile f then togglePreview h f st else st)"

text \<open>\<open>onunload\<close> (lines 81 to 85)\<close>

definition onunload :: "plugin \<Rightarrow> plugin" where
  "onunload st =
     (let st1 = stopAllPreviews st
      in (fold detach (map snd (activeWebViewers st1)) st1)\<lparr>activeWebViewers := []\<rparr>)"

subsection \<open>The listeners of a process spawned by \<open>startPreviewAndGetUrl\<close> or \<open>startPreview\<close>\<close>

text \<open>The timer callback (lines 148 to 152).\<close>

definition timeoutCallback :: "host \<Rightarrow> jsstring \<Rightarrow> nat \<Rightarrow> plugin \<Rightarrow> plugin" where
  "timeoutCallback h key pid st =
     notice (str ''Preview startup timed out'') (resolve h key pid None (cleanup pid st))"

text \<open>The \<open>data\<close> listener on stdout (lines 154 to 163).\<close>

definition stdoutListener :: "host \<Rightarrow> jsstring \<Rightarrow> nat \<Rightarrow> jsstring \<Rightarrow> plugin \<Rightarrow> plugin" where
  "stdoutListener h key pid output st =
     (case previewUrlOf output of
        None \<Rightarrow> st
      | Some u \<Rightarrow> resolve h key pid (Some u) (cleanup pid st))"

text \<open>The \<open>error\<close> listener (lines 169 to 172).\<close>

definition errorListener :: "host \<Rightarrow> jsstring \<Rightarrow> nat \<Rightarrow> plugin \<Rightarrow> plugin" where
  "errorListener h key pid st = resolve h key pid None (cleanup pid st)"

text \<open>The \<open>close\<close> listener (lines 174 to 176 and 200 to 202).\<close>

definition closeListener :: "jsstring \<Rightarrow> plugin \<Rightarrow> plugin" where
  "closeListener key st =
     st\<lparr>activePreviewProcesses := AList.delete key (activePreviewProcesses st)\<rparr>"

section \<open>Events\<close>

text \<open>
  What reaches the plugin, one callback at a time: the toggle callback, a \<open>file-open\<close>, a
  change made in the settings tab, a chunk on the stdout of a process, its \<open>error\<close> and
  \<open>close\<close> events (the latter with the exit code), its timer, and \<open>onunload\<close>.  An event
  for which no listener is in place changes nothing in the plugin.  \<open>HandleLost\<close> is no
  callback: it is the moment at which a process loses its handle.
\<close>

datatype event =
    Toggle "tfile option"
  | FileOpen "tfile option"
  | SettingsChanged settings
  | Stdout nat jsstring
  | ProcError nat
  | ProcClose nat "int option"
  | TimerFired nat
  | HandleLost nat
  | Unload

fun step :: "host \<Rightarrow> event \<Rightarrow> plugin \<Rightarrow> plugin" where
  "step h (Toggle active) st = toggleCallback h active st"
| "step h (FileOpen opened) st = fileOpenHandler h opened st"
| "step h (SettingsChanged s) st = st\<lparr>settings := s\<rparr>"
| "step h (Stdout pid output) st =
     (if pid < length (children st) \<and> onData (children st ! pid)
      then stdoutListener h (capturedPath (children st ! pid)) pid output st else st)"
| "step h (ProcError pid) st =
     (if pid < length (children st) \<and> onError (children st ! pid)
      then errorListener h (capturedPath (children st ! pid)) pid st else st)"
| "step h (ProcClose pid code) st =
     (if pid < length (children st)
      then (let st1 = updChild pid (\<lambda>c. c\<lparr>handle := False\<rparr>) st
            in if onClose (children st ! pid)
               then closeListener (capturedPath (children st ! pid)) st1 else st1)
      else st)"
| "step h (TimerFired pid) st =
     (if pid < length (children st) \<and> timeoutId (children st ! pid) \<noteq> None
      then timeoutCallback h (capturedPath (children st ! pid)) pid st else st)"
| "step h (HandleLost pid) st =
     (if pid < length (children st) then updChild pid (\<lambda>c. c\<lparr>handle := False\<rparr>) st else st)"
| "step h Unload st = onunload st"

definition run :: "host \<Rightarrow> event list \<Rightarrow> plugin \<Rightarrow> plugin" where
  "run h evs st = fold (step h) evs st"

section \<open>The older snapshots of the plugin\<close>

text \<open>
  The repository keeps earlier versions of main.ts.  Of their \<open>startPreview\<close> the model
  keeps the registry, the notices and the call of \<open>spawn\<close>; a process stands for the
  call that made it.  The listeners they attach afterwards and the handler of an exception
  thrown by \<open>spawn\<close> are left out: neither has a part in what \<open>spawn\<close> is called with.
\<close>

record spawnCall =
  command :: jsstring
  args :: "jsstring list"
  cwd :: jsstring
  shell :: bool
  env :: "jsstring \<rightharpoonup> jsstring"

record snapshot =
  processes :: "(jsstring \<times> spawnCall) list"
  messages :: "jsstring list"

text \<open>\<open>startPreview\<close> of src/unnamed/part_001 (lines 99 to 149).\<close>

definition startPreview_part001 :: "host \<Rightarrow> jsstring \<Rightarrow> tfile \<Rightarrow> snapshot \<Rightarrow> snapshot" where
  "startPreview_part001 h quarto f st =
     (if map_of (processes st) (path f) \<noteq> None then st
      else
        (let filePath = getFullPath h (path f);
             workingDir = dirname h filePath;
             process = \<lparr>command = quarto, args = [str ''preview'', path f], cwd = workingDir,
                        shell = True, env = processEnv h\<rparr>
         in st\<lparr>processes := AList.update (path f) process (processes st),
                messages := messages st @ [str ''Quarto preview started'']\<rparr>))"

text \<open>
  The \<open>close\<close> listener that this \<open>startPreview\<close> attaches (lines 135 to 140); the
  snapshots in src/README.md attach the same one (lines 272 to 277, 537 to 542 and 799 to
  804).  \<open>numberToString\<close> is the decimal numeral that the template literal prints for the
  exit code.
\<close>

fun digitsOf :: "nat \<Rightarrow> jsstring" where
  "digitsOf n = (if n < 10 then [48 + n] else digitsOf (n div 10) @ [48 + n mod 10])"

declare digitsOf.simps [simp del]

definition numberToString :: "int \<Rightarrow> jsstring" where
  "numberToString i = (if i < 0 then 45 # digitsOf (nat (- i)) else digitsOf (nat i))"

definition closeListener_part001 :: "jsstring \<Rightarrow> int option \<Rightarrow> snapshot \<Rightarrow> snapshot" where
  "closeListener_part001 key code st =
     (let st1 = (case code of
                   None \<Rightarrow> st
                 | Some n \<Rightarrow>
                     if n \<noteq> 0
                     then st\<lparr>messages := messages st @
                            [str ''Quarto preview process exited with code '' @ numberToString n]\<rparr>
                     else st)
      in st1\<lparr>processes := AList.delete key (processes st1)\<rparr>)"

text \<open>
  \<open>startPreview\<close> of the snapshot with the QUARTO_TYPST setting (src/README.md, lines 734
  to 812).  \<open>envVars\<close> is its local variable of that name (lines 752 to 759).
\<close>

definition envVars :: "host \<Rightarrow> jsstring \<Rightarrow> (jsstring \<rightharpoonup> jsstring)" where
  "envVars h quartoTypst =
     (if trim quartoTypst \<noteq> []
      then (processEnv h)(str ''QUARTO_TYPST'' \<mapsto> trim quartoTypst)
      else processEnv h)"

definition startPreview_typst ::
  "host \<Rightarrow> (jsstring \<Rightarrow> tfile option) \<Rightarrow> jsstring \<Rightarrow> jsstring \<Rightarrow> tfile \<Rightarrow> snapshot \<Rightarrow> snapshot" where
  "startPreview_typst h getAbstractFileByPath quarto quartoTypst f st =
     (if map_of (processes st) (path f) \<noteq> None then st
      else
        (case getAbstractFileByPath (path f) of
           None \<Rightarrow> st\<lparr>messages := messages st @ [str ''File '' @ path f @ str '' not found'']\<rparr>
         | Some abstractFile \<Rightarrow>
             (let filePath = getFullPath h (path abstractFile);
                  workingDir = dirname h filePath;
                  quartoProcess = \<lparr>command = quarto, args = [str ''preview'', filePath],
                                   cwd = workingDir, shell = False, env = envVars h quartoTypst\<rparr>
              in st\<lparr>processes := AList.update (path f) quartoProcess (processes st),
                     messages := messages st @ [str ''Quarto preview started'']\<rparr>)))"

text \<open>The overrides a user has configured in that snapshot: QUARTO_TYPST, unless blank.\<close>

definition overrides :: "jsstring \<Rightarrow> (jsstring \<rightharpoonup> jsstring)" where
  "overrides quartoTypst =
     (if trim quartoTypst = [] then Map.empty else [str ''QUARTO_TYPST'' \<mapsto> trim quartoTypst])"

section \<open>A concrete host\<close>

text \<open>
  A vault at \<open>/vault\<close> on a desktop, for the examples: \<open>getFullPath\<close> joins the vault's
  base path and the path inside the vault, \<open>dirname\<close> drops the last segment of a path that
  has a directory part.
\<close>

definition dropLastSegment :: "jsstring \<Rightarrow> jsstring" where
  "dropLastSegment p = rev (tl (dropWhile (\<lambda>c. c \<noteq> 47) (rev p)))"

definition desktop :: host where
  "desktop =
     \<lparr>getFullPath = (\<lambda>p. str ''/vault/'' @ p), dirname = dropLastSegment, isMobile = False,
      rightLeaf = True, processEnv = [str ''PATH'' \<mapsto> str ''/usr/bin'']\<rparr>"

definition webSettings :: settings where
  "webSettings =
     \<lparr>quartoPath = str ''quarto'', autoPreview = False, enableQmdLinking = False,
      useWebViewer = True\<rparr>"

definition notesA :: tfile where
  "notesA = \<lparr>path = str ''notes/a.qmd'', extension = str ''qmd''\<rparr>"

definition noPane :: host where
  "noPane = desktop\<lparr>rightLeaf := False\<rparr>"

definition externalSettings :: settings where
  "externalSettings = webSettings\<lparr>useWebViewer := False\<rparr>"

definition notesB :: tfile where
  "notesB = \<lparr>path = str ''b.qmd'', extension = str ''qmd''\<rparr>"

definition typstEnv :: "jsstring \<rightharpoonup> jsstring" where
  "typstEnv = [str ''PATH'' \<mapsto> str ''/usr/bin'', str ''QUARTO_TYPST'' \<mapsto> str ''/old/typst'']"

section \<open>The registry invariant\<close>

text \<open>
  The processes the registry holds, and what every reachable state keeps true of them: no
  process stands under two keys, and none has had \<^verbatim>\<open>kill()\<close> invoked on it.
\<close>

definition registered :: "plugin \<Rightarrow> nat list" where
  "registered st = map snd (activePreviewProcesses st)"

definition registryOk :: "plugin \<Rightarrow> bool" where
  "registryOk st \<longleftrightarrow>
     distinct (registered st) \<and>
     list_all (\<lambda>pid. pid < length (children st) \<and> \<not> killed (children st ! pid) \<and>
                     killCalls (children st ! pid) = 0) (registered st)"

section \<open>Evaluation and frame lemmas\<close>

lemmas eval_defs =
  run_def init_def webSettings_def notesA_def desktop_def toggleCallback_def isQuartoFile_def
  togglePreview_def toggleWebViewer_def toggleExternalPreview_def startPreviewAndGetUrl_def
  startPreview_def stopPreview_def stopAllPreviews_def killUnlessKilled_def kill_def
  spawn_def updChild_def timeoutCallback_def stdoutListener_def errorListener_def
  closeListener_def cleanup_def resolve_def showWebViewer_def notice_def detach_def
  fileOpenHandler_def onunload_def dropLastSegment_def Let_def

lemma children_notice [simp]: "children (notice m st) = children st"
  by (simp add: notice_def)

lemma registry_notice [simp]: "activePreviewProcesses (notice m st) = activePreviewProcesses st"
  by (simp add: notice_def)

lemma children_showWebViewer [simp]: "children (showWebViewer h key v st) = children st"
  by (simp add: showWebViewer_def split: option.splits)

lemma registry_showWebViewer [simp]:
  "activePreviewProcesses (showWebViewer h key v st) = activePreviewProcesses st"
  by (simp add: showWebViewer_def split: option.splits)

lemma length_children_updChild [simp]:
  "length (children (updChild pid g st)) = length (children st)"
  by (simp add: updChild_def)

lemma nth_children_updChild:
  "q < length (children st) \<Longrightarrow>
   children (updChild pid g st) ! q = (if q = pid then g (children st ! q) else children st ! q)"
  by (simp add: updChild_def)

lemma registry_updChild [simp]:
  "activePreviewProcesses (updChild pid g st) = activePreviewProcesses st"
  by (simp add: updChild_def)

lemma notices_updChild [simp]: "notices (updChild pid g st) = notices st"
  by (simp add: updChild_def)

lemma kills_updChild:
  "(\<And>c. killCalls (g c) = killCalls c) \<Longrightarrow>
   map killCalls (children (updChild pid g st)) = map killCalls (children st)"
  by (simp add: updChild_def map_update) (metis list_update_id map_update)

lemma killed_updChild:
  "(\<And>c. killed (g c) = killed c) \<Longrightarrow>
   map killed (children (updChild pid g st)) = map killed (children st)"
  by (simp add: updChild_def map_update) (metis list_update_id map_update)

lemma promises_handle [simp]:
  "map promise (children (updChild pid (\<lambda>c. c\<lparr>handle := False\<rparr>) st)) = map promise (children st)"
  by (simp add: updChild_def map_update) (metis list_update_id map_update)

lemma timers_handle [simp]:
  "map timeoutId (children (updChild pid (\<lambda>c. c\<lparr>handle := False\<rparr>) st)) =
   map timeoutId (children st)"
  by (simp add: updChild_def map_update) (metis list_update_id map_update)

lemma kills_cleanup [simp]: "map killCalls (children (cleanup pid st)) = map killCalls (children st)"
  by (simp add: cleanup_def kills_updChild)

lemma killed_cleanup [simp]: "map killed (children (cleanup pid st)) = map killed (children st)"
  by (simp add: cleanup_def killed_updChild)

lemma kills_resolve [simp]:
  "map killCalls (children (resolve h key pid v st)) = map killCalls (children st)"
  by (simp add: resolve_def kills_updChild)

lemma killed_resolve [simp]:
  "map killed (children (resolve h key pid v st)) = map killed (children st)"
  by (simp add: resolve_def killed_updChild)

lemma registry_cleanup [simp]: "activePreviewProcesses (cleanup pid st) = activePreviewProcesses st"
  by (simp add: cleanup_def)

lemma registry_resolve [simp]:
  "activePreviewProcesses (resolve h key pid v st) = activePreviewProcesses st"
  by (simp add: resolve_def)

lemma notices_cleanup [simp]: "notices (cleanup pid st) = notices st"
  by (simp add: cleanup_def)

lemma notices_resolve_None [simp]: "notices (resolve h key pid None st) = notices st"
  by (simp add: resolve_def showWebViewer_def)

lemma length_children_cleanup [simp]: "length (children (cleanup pid st)) = length (children st)"
  by (simp add: cleanup_def)

lemma length_children_resolve [simp]:
  "length (children (resolve h key pid v st)) = length (children st)"
  by (simp add: resolve_def)

lemma promise_after_resolve:
  "pid < length (children st) \<Longrightarrow> promise (children st ! pid) = Some Pending \<Longrightarrow>
   promise (children (resolve h key pid v st) ! pid) = Some (Resolved v)"
  by (simp add: resolve_def nth_children_updChild)

lemma promise_cleanup:
  "pid < length (children st) \<Longrightarrow>
   promise (children (cleanup pid st) ! pid) = promise (children st ! pid)"
  by (simp add: cleanup_def nth_children_updChild)

lemma timeoutId_resolve:
  "pid < length (children st) \<Longrightarrow>
   timeoutId (children (resolve h key pid v st) ! pid) = timeoutId (children st ! pid)"
  by (simp add: resolve_def nth_children_updChild)

lemma timeoutId_cleanup:
  "pid < length (children st) \<Longrightarrow> timeoutId (children (cleanup pid st) ! pid) = None"
  by (simp add: cleanup_def nth_children_updChild)

lemma registry_kill [simp]: "activePreviewProcesses (kill pid st) = activePreviewProcesses st"
  by (simp add: kill_def updChild_def)

lemma length_children_kill [simp]: "length (children (kill pid st)) = length (children st)"
  by (simp add: kill_def)

lemma children_kill_other: "q \<noteq> pid \<Longrightarrow> children (kill pid st) ! q = children st ! q"
  by (simp add: kill_def updChild_def)

lemma children_kill_self:
  "pid < length (children st) \<Longrightarrow>
   children (kill pid st) ! pid =
     (children st ! pid)\<lparr>killCalls := Suc (killCalls (children st ! pid)),
        killed := (killed (children st ! pid) \<or> handle (children st ! pid))\<rparr>"
  by (simp add: kill_def updChild_def)

lemma startPreviewAndGetUrl_child:
  "fst (startPreviewAndGetUrl h f st) = length (children st) \<and>
   children (snd (startPreviewAndGetUrl h f st)) =
     children st @
       [\<lparr>spawnfile = quartoPath (settings st),
         spawnargs = [str ''preview'', getFullPath h (path f)],
         spawncwd = dirname h (getFullPath h (path f)), spawnenv = processEnv h,
         killed = False, killCalls = 0, handle = True, capturedPath = path f, onClose = True,
         onError = True, onData = True, timeoutId = Some 10000, promise = Some Pending\<rparr>] \<and>
   activePreviewProcesses (snd (startPreviewAndGetUrl h f st)) =
     AList.update (path f) (length (children st)) (activePreviewProcesses st)"
  by (simp add: startPreviewAndGetUrl_def spawn_def updChild_def Let_def)

lemma startPreview_child:
  "map_of (activePreviewProcesses st) (path f) = None \<Longrightarrow>
   children (startPreview h f st) =
     children st @
       [\<lparr>spawnfile = quartoPath (settings st),
         spawnargs = [str ''preview'', getFullPath h (path f)],
         spawncwd = dirname h (getFullPath h (path f)), spawnenv = processEnv h,
         killed = False, killCalls = 0, handle = True, capturedPath = path f, onClose = True,
         onError = False, onData = False, timeoutId = None, promise = None\<rparr>] \<and>
   activePreviewProcesses (startPreview h f st) =
     AList.update (path f) (length (children st)) (activePreviewProcesses st)"
  by (simp add: startPreview_def spawn_def updChild_def Let_def)

section \<open>The readiness pattern, characterised\<close>

lemma stripPrefix_Some_iff: "stripPrefix p s = Some r \<longleftrightarrow> s = p @ r"
  by (induction p s rule: stripPrefix.induct) auto

lemma stripPrefix_None_iff: "stripPrefix p s = None \<longleftrightarrow> (\<forall>r. s \<noteq> p @ r)"
  using stripPrefix_Some_iff [of p s] by (cases "stripPrefix p s") auto

lemma js_includes_iff: "js_includes s pat \<longleftrightarrow> (\<exists>pre post. s = pre @ pat @ post)"
proof (induction s)
  case Nil
  show ?case by auto
next
  case (Cons c cs)
  have "stripPrefix pat (c # cs) \<noteq> None \<longleftrightarrow> (\<exists>post. c # cs = pat @ post)"
    using stripPrefix_None_iff [of pat "c # cs"] by auto
  moreover have "(\<exists>pre post. c # cs = pre @ pat @ post) \<longleftrightarrow>
      (\<exists>post. c # cs = pat @ post) \<or> (\<exists>pre post. cs = pre @ pat @ post)"
  proof
    assume "\<exists>pre post. c # cs = pre @ pat @ post"
    then obtain pre post where e: "c # cs = pre @ pat @ post" by blast
    show "(\<exists>post. c # cs = pat @ post) \<or> (\<exists>pre post. cs = pre @ pat @ post)"
    proof (cases pre)
      case Nil
      with e show ?thesis by auto
    next
      case (Cons a pre')
      with e have "cs = pre' @ pat @ post" by simp
      then show ?thesis by blast
    qed
  next
    assume "(\<exists>post. c # cs = pat @ post) \<or> (\<exists>pre post. cs = pre @ pat @ post)"
    then show "\<exists>pre post. c # cs = pre @ pat @ post"
    proof
      assume "\<exists>post. c # cs = pat @ post"
      then obtain post where "c # cs = [] @ pat @ post" by auto
      then show ?thesis by blast
    next
      assume "\<exists>pre post. cs = pre @ pat @ post"
      then obtain pre post where "c # cs = (c # pre) @ pat @ post" by auto
      then show ?thesis by blast
    qed
  qed
  ultimately show ?case using Cons.IH by simp
qed

lemma http_head: "str ''http://'' = 104 # str ''ttp://''"
  by (simp add: str_def)

lemma not_space_h: "\<not> isWhiteSpace 104"
  by (simp add: isWhiteSpace_def)

lemma takeWhile_space_http:
  "list_all isWhiteSpace ws \<Longrightarrow> takeWhile isWhiteSpace (ws @ str ''http://'' @ r) = ws"
  by (induction ws) (simp_all add: http_head not_space_h)

lemma dropWhile_space_http:
  "list_all isWhiteSpace ws \<Longrightarrow> dropWhile isWhiteSpace (ws @ str ''http://'' @ r) = str ''http://'' @ r"
  by (induction ws) (simp_all add: http_head not_space_h)

lemma takeWhile_post:
  "post = [] \<or> isWhiteSpace (hd post) \<Longrightarrow> takeWhile (\<lambda>c. \<not> isWhiteSpace c) post = []"
  by (cases post) auto

lemma takeWhile_run:
  "list_all (\<lambda>c. \<not> isWhiteSpace c) rest \<Longrightarrow> post = [] \<or> isWhiteSpace (hd post) \<Longrightarrow>
   takeWhile (\<lambda>c. \<not> isWhiteSpace c) (rest @ post) = rest"
  by (induction rest) (simp_all add: takeWhile_post)

lemma browseAtHere_intro:
  assumes "s = str ''Browse at'' @ ws @ str ''http://'' @ rest @ post"
    and "ws \<noteq> []" and "list_all isWhiteSpace ws"
    and "rest \<noteq> []" and "list_all (\<lambda>c. \<not> isWhiteSpace c) rest"
    and "post = [] \<or> isWhiteSpace (hd post)"
  shows "browseAtHere s = Some (str ''http://'' @ rest)"
proof -
  have 1: "stripPrefix (str ''Browse at'') s = Some (ws @ str ''http://'' @ rest @ post)"
    using assms(1) by (simp add: stripPrefix_Some_iff)
  have 2: "stripPrefix (str ''http://'') (str ''http://'' @ rest @ post) = Some (rest @ post)"
    by (simp add: stripPrefix_Some_iff)
  show ?thesis
    using assms(2,4)
    by (simp add: browseAtHere_def 1 2 takeWhile_space_http [OF assms(3)]
        dropWhile_space_http [OF assms(3)] takeWhile_run [OF assms(5,6)])
qed

lemma browseAtHere_elim:
  assumes "browseAtHere s = Some u"
  shows "\<exists>ws rest post. s = str ''Browse at'' @ ws @ str ''http://'' @ rest @ post \<and>
           ws \<noteq> [] \<and> list_all isWhiteSpace ws \<and>
           rest \<noteq> [] \<and> list_all (\<lambda>c. \<not> isWhiteSpace c) rest \<and>
           (post = [] \<or> isWhiteSpace (hd post)) \<and> u = str ''http://'' @ rest"
proof -
  from assms obtain r1 where r1: "stripPrefix (str ''Browse at'') s = Some r1"
    by (auto simp: browseAtHere_def split: option.splits)
  with assms have ws: "takeWhile isWhiteSpace r1 \<noteq> []"
    by (auto simp: browseAtHere_def split: if_splits)
  with assms r1 obtain r2 where
    r2: "stripPrefix (str ''http://'') (dropWhile isWhiteSpace r1) = Some r2"
    by (auto simp: browseAtHere_def split: option.splits if_splits)
  with assms r1 ws have rest: "takeWhile (\<lambda>c. \<not> isWhiteSpace c) r2 \<noteq> []"
    and u: "u = str ''http://'' @ takeWhile (\<lambda>c. \<not> isWhiteSpace c) r2"
    by (auto simp: browseAtHere_def split: if_splits)
  let ?ws = "takeWhile isWhiteSpace r1"
  let ?rest = "takeWhile (\<lambda>c. \<not> isWhiteSpace c) r2"
  let ?post = "dropWhile (\<lambda>c. \<not> isWhiteSpace c) r2"
  have "r1 = ?ws @ dropWhile isWhiteSpace r1" by simp
  also have "dropWhile isWhiteSpace r1 = str ''http://'' @ r2"
    using r2 by (simp add: stripPrefix_Some_iff)
  also have "r2 = ?rest @ ?post" by simp
  finally have "s = str ''Browse at'' @ ?ws @ str ''http://'' @ ?rest @ ?post"
    using r1 by (simp add: stripPrefix_Some_iff)
  moreover have "list_all isWhiteSpace ?ws"
    by (auto simp: list_all_iff dest: set_takeWhileD)
  moreover have "list_all (\<lambda>c. \<not> isWhiteSpace c) ?rest"
    by (auto simp: list_all_iff dest: set_takeWhileD)
  moreover have "?post = [] \<or> isWhiteSpace (hd ?post)"
    using hd_dropWhile [of "\<lambda>c. \<not> isWhiteSpace c" r2] by blast
  ultimately show ?thesis using ws rest u by blast
qed

lemma regexMatch_Some_iff:
  "regexMatch s = Some u \<longleftrightarrow>
     (\<exists>pre t. s = pre @ t \<and> browseAtHere t = Some u \<and>
        (\<forall>j<length pre. browseAtHere (drop j s) = None))"
proof (induction s)
  case Nil
  show ?case by auto
next
  case (Cons c cs)
  show ?case
  proof (cases "browseAtHere (c # cs)")
    case (Some v)
    have "(\<exists>pre t. c # cs = pre @ t \<and> browseAtHere t = Some u \<and>
        (\<forall>j<length pre. browseAtHere (drop j (c # cs)) = None)) \<longleftrightarrow> v = u"
    proof
      assume "\<exists>pre t. c # cs = pre @ t \<and> browseAtHere t = Some u \<and>
        (\<forall>j<length pre. browseAtHere (drop j (c # cs)) = None)"
      then obtain pre t where e: "c # cs = pre @ t" "browseAtHere t = Some u"
        "\<forall>j<length pre. browseAtHere (drop j (c # cs)) = None" by blast
      have "pre = []"
      proof (rule ccontr)
        assume "pre \<noteq> []"
        then have "0 < length pre" by simp
        with e(3) have "browseAtHere (drop 0 (c # cs)) = None" by blast
        with Some show False by simp
      qed
      with e Some show "v = u" by simp
    next
      assume "v = u"
      with Some have "c # cs = [] @ (c # cs) \<and> browseAtHere (c # cs) = Some u \<and>
        (\<forall>j<length ([]::nat list). browseAtHere (drop j (c # cs)) = None)" by simp
      then show "\<exists>pre t. c # cs = pre @ t \<and> browseAtHere t = Some u \<and>
        (\<forall>j<length pre. browseAtHere (drop j (c # cs)) = None)" by blast
    qed
    with Some show ?thesis by simp
  next
    case None
    have "(\<exists>pre t. c # cs = pre @ t \<and> browseAtHere t = Some u \<and>
        (\<forall>j<length pre. browseAtHere (drop j (c # cs)) = None)) \<longleftrightarrow>
        (\<exists>pre t. cs = pre @ t \<and> browseAtHere t = Some u \<and>
        (\<forall>j<length pre. browseAtHere (drop j cs) = None))"
    proof
      assume "\<exists>pre t. c # cs = pre @ t \<and> browseAtHere t = Some u \<and>
        (\<forall>j<length pre. browseAtHere (drop j (c # cs)) = None)"
      then obtain pre t where e: "c # cs = pre @ t" "browseAtHere t = Some u"
        "\<forall>j<length pre. browseAtHere (drop j (c # cs)) = None" by blast
      from e(1,2) None obtain pre' where p: "pre = c # pre'" by (cases pre) auto
      with e(1) have "cs = pre' @ t" by simp
      moreover have "\<forall>j<length pre'. browseAtHere (drop j cs) = None"
      proof (intro allI impI)
        fix j assume "j < length pre'"
        then have "Suc j < length pre" using p by simp
        with e(3) have "browseAtHere (drop (Suc j) (c # cs)) = None" by blast
        then show "browseAtHere (drop j cs) = None" by simp
      qed
      ultimately show "\<exists>pre t. cs = pre @ t \<and> browseAtHere t = Some u \<and>
        (\<forall>j<length pre. browseAtHere (drop j cs) = None)" using e(2) by blast
    next
      assume "\<exists>pre t. cs = pre @ t \<and> browseAtHere t = Some u \<and>
        (\<forall>j<length pre. browseAtHere (drop j cs) = None)"
      then obtain pre t where e: "cs = pre @ t" "browseAtHere t = Some u"
        "\<forall>j<length pre. browseAtHere (drop j cs) = None" by blast
      have "\<forall>j<length (c # pre). browseAtHere (drop j (c # cs)) = None"
      proof (intro allI impI)
        fix j assume j: "j < length (c # pre)"
        show "browseAtHere (drop j (c # cs)) = None"
        proof (cases j)
          case 0
          with None show ?thesis by simp
        next
          case (Suc k)
          with j have "k < length pre" by simp
          with e(3) Suc show ?thesis by simp
        qed
      qed
      moreover have "c # cs = (c # pre) @ t" using e(1) by simp
      ultimately show "\<exists>pre t. c # cs = pre @ t \<and> browseAtHere t = Some u \<and>
        (\<forall>j<length pre. browseAtHere (drop j (c # cs)) = None)" using e(2) by blast
    qed
    with None Cons.IH show ?thesis by simp
  qed
qed

lemma previewUrlOf_regexMatch: "previewUrlOf output = regexMatch output"
proof (cases "regexMatch output")
  case None
  then show ?thesis by (simp add: previewUrlOf_def)
next
  case (Some u)
  then obtain pre t where e: "output = pre @ t" "browseAtHere t = Some u"
    using regexMatch_Some_iff [of "output" u] by blast
  from browseAtHere_elim [OF e(2)] obtain ws rest post where
    t: "t = str ''Browse at'' @ ws @ str ''http://'' @ rest @ post" and u: "u = str ''http://'' @ rest"
    by blast
  have "js_includes output (str ''Browse at'')"
    using e(1) t js_includes_iff [of "output" "str ''Browse at''"] by blast
  moreover have "u \<noteq> []" using u by (simp add: http_head)
  ultimately show ?thesis using Some by (simp add: previewUrlOf_def)
qed

lemma marker_chunk:
  "previewUrlOf (str ''Browse at http://localhost:4000/'' @ [10]) = Some (str ''http://localhost:4000/'')"
  by (simp add: previewUrlOf_def browseAtHere_def isWhiteSpace_def str_def)

lemma stdout_marker_resolves:
  assumes "pid < length (children st)" and "onData (children st ! pid)"
    and "promise (children st ! pid) = Some Pending" and "previewUrlOf out = Some u"
  shows "promise (children (step h (Stdout pid out) st) ! pid) = Some (Resolved (Some u))"
  using assms by (simp add: stdoutListener_def promise_after_resolve promise_cleanup)

section \<open>Lemmas on the settings and on \<open>stopPreview\<close>\<close>

lemma registry_killUnlessKilled [simp]:
  "activePreviewProcesses (killUnlessKilled pid st) = activePreviewProcesses st"
  by (simp add: killUnlessKilled_def)

lemma stopPreview_absent:
  "map_of (activePreviewProcesses st) (path f) = None \<Longrightarrow> stopPreview f st = st"
  by (simp add: stopPreview_def)

lemma stopPreview_removes:
  "map_of (activePreviewProcesses (stopPreview f st)) (path f) = None"
  by (simp add: stopPreview_def Let_def AList.delete_conv split: option.splits)

lemma fold_assign_map_of:
  "map_of (fold (\<lambda>(k, v) t. if k = P then t else AList.update k v t) ps t) =
   map_of t ++ map_of (rev (filter (\<lambda>e. fst e \<noteq> P) ps))"
proof (induction ps arbitrary: t)
  case Nil
  show ?case by simp
next
  case (Cons p ps)
  obtain k v where p: "p = (k, v)" by (cases p)
  show ?case
    by (simp add: p Cons.IH AList.update_conv' map_add_upd_left del: fun_upd_apply)
qed

lemma map_of_rev_distinct: "distinct (map fst ps) \<Longrightarrow> map_of (rev ps) = map_of ps"
  by (rule ext) (metis distinct_rev map_of_inject_set rev_map set_rev distinct_rev)

lemma map_of_filter_key:
  "map_of (filter (\<lambda>e. fst e \<noteq> P) ps) k = (if k = P then None else map_of ps k)"
  by (induction ps) auto

lemma loadSettings_None: "loadSettings None = DEFAULT_SETTINGS"
  by (simp add: loadSettings_def assign_def DEFAULT_SETTINGS_def str_def)

lemma loadSettings_Some:
  "distinct (map fst d) \<Longrightarrow>
   map_of (loadSettings (Some d)) k =
     (if k = str ''__proto__'' then None
      else (case map_of d k of Some v \<Rightarrow> Some v | None \<Rightarrow> map_of DEFAULT_SETTINGS k))"
proof -
  assume d: "distinct (map fst d)"
  let ?d = "filter (\<lambda>e. fst e \<noteq> str ''__proto__'') d"
  have dd: "distinct (map fst ?d)" using d by (simp add: distinct_map_filter)
  have "assign [] (Some DEFAULT_SETTINGS) = DEFAULT_SETTINGS"
    using loadSettings_None by (simp add: loadSettings_def assign_def)
  then have "map_of (loadSettings (Some d)) = map_of DEFAULT_SETTINGS ++ map_of ?d"
    by (simp add: loadSettings_def assign_def [of DEFAULT_SETTINGS] fold_assign_map_of
        map_of_rev_distinct [OF dd])
  moreover have "map_of DEFAULT_SETTINGS (str ''__proto__'') = None"
    by (simp add: DEFAULT_SETTINGS_def str_def)
  ultimately show ?thesis
    by (simp add: map_add_def map_of_filter_key split: option.splits)
qed

section \<open>The registry invariant holds in every reachable state\<close>

lemma registryOk_frame:
  assumes "registryOk st"
    and "activePreviewProcesses st' = activePreviewProcesses st"
    and "map killed (children st') = map killed (children st)"
    and "map killCalls (children st') = map killCalls (children st)"
  shows "registryOk st'"
proof -
  have len: "length (children st') = length (children st)"
    using assms(3) by (metis length_map)
  have "killed (children st' ! p) = killed (children st ! p) \<and>
        killCalls (children st' ! p) = killCalls (children st ! p)"
    if "p < length (children st)" for p
    using that len assms(3,4) by (metis nth_map)
  with assms(1,2) len show ?thesis
    by (auto simp: registryOk_def registered_def list_all_iff)
qed

lemma map_snd_delete: "map snd (AList.delete k al) = map snd (filter (\<lambda>e. fst e \<noteq> k) al)"
  by (induction al) auto

lemma registryOk_delete:
  "registryOk st \<Longrightarrow>
   registryOk (st\<lparr>activePreviewProcesses := AList.delete k (activePreviewProcesses st)\<rparr>)"
  by (auto simp: registryOk_def registered_def list_all_iff map_snd_delete distinct_map_filter)

lemma set_snd_update: "set (map snd (AList.update k v al)) \<subseteq> insert v (set (map snd al))"
  by (induction al) auto

lemma distinct_snd_update:
  "distinct (map snd al) \<Longrightarrow> v \<notin> set (map snd al) \<Longrightarrow> distinct (map snd (AList.update k v al))"
proof (induction al)
  case Nil
  show ?case by simp
next
  case (Cons e al)
  show ?case
  proof (cases "fst e = k")
    case True
    with Cons.prems show ?thesis by auto
  next
    case False
    have "snd e \<notin> set (map snd (AList.update k v al))"
      using set_snd_update [of k v al] Cons.prems by auto
    with False Cons show ?thesis by auto
  qed
qed

lemma registryOk_register:
  assumes "registryOk st"
    and "butlast (children st') = children st" and "children st' \<noteq> []"
    and "\<not> killed (last (children st'))" and "killCalls (last (children st')) = 0"
    and "activePreviewProcesses st' =
         AList.update key (length (children st)) (activePreviewProcesses st)"
  shows "registryOk st'"
proof -
  have ch: "children st' = children st @ [last (children st')]"
    using assms(2,3) by (metis append_butlast_last_id)
  have old: "p < length (children st) \<and> \<not> killed (children st ! p) \<and> killCalls (children st ! p) = 0"
    if "p \<in> set (registered st)" for p
    using that assms(1) by (simp add: registryOk_def list_all_iff)
  then have fresh: "length (children st) \<notin> set (map snd (activePreviewProcesses st))"
    by (auto simp: registered_def)
  have d: "distinct (registered st')"
    using assms(1,6) distinct_snd_update [OF _ fresh] by (simp add: registryOk_def registered_def)
  have "p < length (children st') \<and> \<not> killed (children st' ! p) \<and> killCalls (children st' ! p) = 0"
    if "p \<in> set (registered st')" for p
  proof -
    from that assms(6) set_snd_update [of key "length (children st)" "activePreviewProcesses st"]
    have "p = length (children st) \<or> p \<in> set (registered st)"
      by (auto simp: registered_def)
    then show ?thesis
    proof
      assume "p = length (children st)"
      then show ?thesis using assms(4,5) by (subst (1 2 3) ch) simp
    next
      assume "p \<in> set (registered st)"
      from old [OF this] show ?thesis by (subst (1 2 3) ch) (simp add: nth_append)
    qed
  qed
  with d show ?thesis by (simp add: registryOk_def list_all_iff)
qed

lemma registryOk_startPreviewAndGetUrl:
  "registryOk st \<Longrightarrow> registryOk (snd (startPreviewAndGetUrl h f st))"
  by (rule registryOk_register [where key = "path f"]) (simp_all add: startPreviewAndGetUrl_child)

lemma registryOk_startPreview: "registryOk st \<Longrightarrow> registryOk (startPreview h f st)"
proof (cases "map_of (activePreviewProcesses st) (path f)")
  case None
  assume "registryOk st"
  then show ?thesis
    by (rule registryOk_register [where key = "path f"]) (simp_all add: startPreview_child [OF None])
next
  case (Some pid)
  assume "registryOk st"
  with Some show ?thesis by (simp add: startPreview_def)
qed

lemma registryOk_stopPreview: "registryOk st \<Longrightarrow> registryOk (stopPreview f st)"
proof (cases "map_of (activePreviewProcesses st) (path f)")
  case None
  assume "registryOk st"
  with None show ?thesis by (simp add: stopPreview_def)
next
  case (Some pid)
  assume ok: "registryOk st"
  let ?al = "activePreviewProcesses st"
  from Some have mem: "(path f, pid) \<in> set ?al" by (rule map_of_SomeD)
  have other: "q \<noteq> pid" if "q \<in> set (map snd (AList.delete (path f) ?al))" for q
  proof -
    from that obtain e where e: "e \<in> set ?al" "fst e \<noteq> path f" "snd e = q"
      by (auto simp: map_snd_delete)
    from ok have "inj_on snd (set ?al)"
      by (simp add: registryOk_def registered_def distinct_map)
    with e(1) mem have "snd e = pid \<longrightarrow> e = (path f, pid)"
      by (metis inj_onD snd_conv)
    with e show ?thesis by (metis fst_conv)
  qed
  have st': "stopPreview f st =
      (kill pid st)\<lparr>activePreviewProcesses := AList.delete (path f) ?al\<rparr>"
    using ok mem Some by (auto simp: stopPreview_def registryOk_def registered_def list_all_iff)
  have del: "registryOk (st\<lparr>activePreviewProcesses := AList.delete (path f) ?al\<rparr>)"
    using ok by (rule registryOk_delete)
  show ?thesis
    unfolding st' using del other
    by (auto simp: registryOk_def registered_def list_all_iff children_kill_other)
qed

lemma registryOk_empty: "activePreviewProcesses st = [] \<Longrightarrow> registryOk st"
  by (simp add: registryOk_def registered_def)

lemma registry_stopAllPreviews [simp]: "activePreviewProcesses (stopAllPreviews st) = []"
  by (simp add: stopAllPreviews_def)

lemma registry_fold_detach [simp]:
  "activePreviewProcesses (fold detach ls st) = activePreviewProcesses st"
  by (induction ls arbitrary: st) (simp_all add: detach_def)

lemma registry_onunload [simp]: "activePreviewProcesses (onunload st) = []"
  by (simp add: onunload_def Let_def)

lemma registryOk_detach_viewers:
  "registryOk st \<Longrightarrow> registryOk ((detach l st)\<lparr>activeWebViewers := vs\<rparr>)"
  by (erule registryOk_frame) (simp_all add: detach_def)

lemma registryOk_toggleWebViewer: "registryOk st \<Longrightarrow> registryOk (toggleWebViewer h f st)"
  by (simp add: toggleWebViewer_def registryOk_stopPreview registryOk_detach_viewers
      registryOk_startPreviewAndGetUrl split: option.splits)

lemma registryOk_togglePreview: "registryOk st \<Longrightarrow> registryOk (togglePreview h f st)"
  by (simp add: togglePreview_def toggleExternalPreview_def registryOk_toggleWebViewer
      registryOk_stopPreview registryOk_startPreview)

lemma registryOk_notice: "registryOk st \<Longrightarrow> registryOk (notice m st)"
  by (erule registryOk_frame) simp_all

lemma registryOk_resolve_cleanup:
  "registryOk st \<Longrightarrow> registryOk (resolve h key pid v (cleanup pid st))"
  by (erule registryOk_frame) simp_all

lemma registryOk_step: "registryOk st \<Longrightarrow> registryOk (step h e st)"
proof (cases e)
  case (Toggle active)
  assume "registryOk st"
  with Toggle show ?thesis
    by (simp add: toggleCallback_def registryOk_togglePreview registryOk_notice split: option.splits)
next
  case (FileOpen opened)
  assume "registryOk st"
  with FileOpen show ?thesis
    by (simp add: fileOpenHandler_def registryOk_togglePreview split: option.splits)
next
  case (SettingsChanged s)
  assume "registryOk st"
  then have "registryOk (st\<lparr>settings := s\<rparr>)" by (rule registryOk_frame) simp_all
  with SettingsChanged show ?thesis by simp
next
  case (Stdout pid out)
  assume "registryOk st"
  with Stdout show ?thesis
    by (simp add: stdoutListener_def registryOk_resolve_cleanup split: option.splits)
next
  case (ProcError pid)
  assume "registryOk st"
  with ProcError show ?thesis by (simp add: errorListener_def registryOk_resolve_cleanup)
next
  case (ProcClose pid code)
  assume ok: "registryOk st"
  have 1: "registryOk (updChild pid (\<lambda>c. c\<lparr>handle := False\<rparr>) st)"
    using ok by (rule registryOk_frame) (simp_all add: kills_updChild killed_updChild)
  have 2: "registryOk (closeListener key (updChild pid (\<lambda>c. c\<lparr>handle := False\<rparr>) st))" for key
    using registryOk_delete [OF 1] by (simp add: closeListener_def)
  from ok 1 2 ProcClose show ?thesis by (simp add: Let_def)
next
  case (TimerFired pid)
  assume "registryOk st"
  with TimerFired show ?thesis
    by (simp add: timeoutCallback_def registryOk_notice registryOk_resolve_cleanup)
next
  case (HandleLost pid)
  assume ok: "registryOk st"
  have "registryOk (updChild pid (\<lambda>c. c\<lparr>handle := False\<rparr>) st)"
    using ok by (rule registryOk_frame) (simp_all add: kills_updChild killed_updChild)
  with ok HandleLost show ?thesis by simp
next
  case Unload
  then show ?thesis by (simp add: registryOk_empty)
qed

lemma registryOk_run: "registryOk st \<Longrightarrow> registryOk (run h evs st)"
  unfolding run_def by (induction evs arbitrary: st) (simp_all add: registryOk_step)

lemma registryOk_init: "registryOk (init s)"
  by (simp add: registryOk_empty init_def)

lemma fold_killUnlessKilled:
  "distinct ps \<Longrightarrow>
   (\<And>p. p \<in> set ps \<Longrightarrow> p < length (children st) \<and> \<not> killed (children st ! p)) \<Longrightarrow>
   length (children (fold killUnlessKilled ps st)) = length (children st) \<and>
   (\<forall>p\<in>set ps. children (fold killUnlessKilled ps st) ! p =
      (children st ! p)\<lparr>killCalls := Suc (killCalls (children st ! p)),
         killed := handle (children st ! p)\<rparr>) \<and>
   (\<forall>q. q \<notin> set ps \<longrightarrow> children (fold killUnlessKilled ps st) ! q = children st ! q)"
proof (induction ps arbitrary: st)
  case Nil
  show ?case by simp
next
  case (Cons p ps)
  let ?st1 = "killUnlessKilled p st"
  have p: "p < length (children st)" "\<not> killed (children st ! p)" "p \<notin> set ps" "distinct ps"
    using Cons.prems by auto
  have st1: "?st1 = kill p st" using p(2) by (simp add: killUnlessKilled_def)
  have pre: "q < length (children ?st1) \<and> \<not> killed (children ?st1 ! q)" if "q \<in> set ps" for q
  proof -
    from that p(3) have "q \<noteq> p" by auto
    with Cons.prems(2) [of q] that show ?thesis by (simp add: st1 children_kill_other)
  qed
  note IH = Cons.IH [OF p(4) pre]
  have a: "length (children (fold killUnlessKilled (p # ps) st)) = length (children st)"
    using IH by (simp add: st1)
  have b: "children (fold killUnlessKilled (p # ps) st) ! r =
      (children st ! r)\<lparr>killCalls := Suc (killCalls (children st ! r)),
         killed := handle (children st ! r)\<rparr>" if "r \<in> set (p # ps)" for r
  proof (cases "r = p")
    case True
    with IH p(3) have "children (fold killUnlessKilled (p # ps) st) ! r = children ?st1 ! p"
      by simp
    with True p(1,2) show ?thesis by (simp add: st1 children_kill_self)
  next
    case False
    with that have "r \<in> set ps" by simp
    with IH have "children (fold killUnlessKilled (p # ps) st) ! r =
      (children ?st1 ! r)\<lparr>killCalls := Suc (killCalls (children ?st1 ! r)),
         killed := handle (children ?st1 ! r)\<rparr>" by simp
    with False show ?thesis by (simp add: st1 children_kill_other)
  qed
  have c: "children (fold killUnlessKilled (p # ps) st) ! q = children st ! q"
    if "q \<notin> set (p # ps)" for q
  proof -
    from that have "q \<notin> set ps" "q \<noteq> p" by auto
    with IH show ?thesis by (simp add: st1 children_kill_other)
  qed
  from a b c show ?case by blast
qed

lemma timerFired_pending:
  assumes "pid < length (children st)" and "timeoutId (children st ! pid) \<noteq> None"
    and "promise (children st ! pid) = Some Pending"
  shows "children (step h (TimerFired pid) st) =
           (children st)[pid := (children st ! pid)\<lparr>timeoutId := None, onClose := False,
              onError := False, promise := Some (Resolved None)\<rparr>]"
    and "notices (step h (TimerFired pid) st) = notices st @ [str ''Preview startup timed out'']"
    and "activePreviewProcesses (step h (TimerFired pid) st) = activePreviewProcesses st"
  using assms
  by (simp_all add: timeoutCallback_def notice_def resolve_def cleanup_def updChild_def
      showWebViewer_def)

section \<open>The claims\<close>

subsection \<open>C1: the timeout of a start\<close>

text \<open>
  C1, as the code has it.  \<open>startPreviewAndGetUrl\<close> arms a timer of 10000 ms.  When it fires
  while the promise of the start is pending, the promise is resolved with null, the timer is
  cleared, the \<open>close\<close> and \<open>error\<close> listeners of the process are removed (its \<open>data\<close>
  listener stays), and the notice \<open>Preview startup timed out\<close> is shown.  Nothing else
  changes: \<^verbatim>\<open>kill()\<close> is invoked on no process, so every \<open>killCalls\<close> and every \<open>killed\<close>
  flag is as before, and the registry still holds the process.
\<close>

theorem timeout_resolves_null:
  "timeoutId (children (snd (startPreviewAndGetUrl h f st0)) ! fst (startPreviewAndGetUrl h f st0)) =
     Some 10000 \<and>
   (pid < length (children st) \<and> timeoutId (children st ! pid) \<noteq> None \<and>
    promise (children st ! pid) = Some Pending \<longrightarrow>
      children (step h (TimerFired pid) st) =
        (children st)[pid := (children st ! pid)\<lparr>timeoutId := None, onClose := False,
           onError := False, promise := Some (Resolved None)\<rparr>] \<and>
      promise (children (step h (TimerFired pid) st) ! pid) = Some (Resolved None) \<and>
      timeoutId (children (step h (TimerFired pid) st) ! pid) = None \<and>
      \<not> onClose (children (step h (TimerFired pid) st) ! pid) \<and>
      \<not> onError (children (step h (TimerFired pid) st) ! pid) \<and>
      onData (children (step h (TimerFired pid) st) ! pid) = onData (children st ! pid) \<and>
      notices (step h (TimerFired pid) st) = notices st @ [str ''Preview startup timed out''] \<and>
      map killCalls (children (step h (TimerFired pid) st)) = map killCalls (children st) \<and>
      map killed (children (step h (TimerFired pid) st)) = map killed (children st) \<and>
      activePreviewProcesses (step h (TimerFired pid) st) = activePreviewProcesses st)"
proof (intro conjI impI)
  show "timeoutId (children (snd (startPreviewAndGetUrl h f st0)) ! fst (startPreviewAndGetUrl h f st0)) =
     Some 10000"
    by (simp add: startPreviewAndGetUrl_child)
next
  assume a: "pid < length (children st) \<and> timeoutId (children st ! pid) \<noteq> None \<and>
    promise (children st ! pid) = Some Pending"
  note t = timerFired_pending [of pid st h, OF conjunct1 [OF a] conjunct1 [OF conjunct2 [OF a]]
      conjunct2 [OF conjunct2 [OF a]]]
  from a have p: "pid < length (children st)" by simp
  show "children (step h (TimerFired pid) st) =
        (children st)[pid := (children st ! pid)\<lparr>timeoutId := None, onClose := False,
           onError := False, promise := Some (Resolved None)\<rparr>]"
    by (rule t(1))
  show "promise (children (step h (TimerFired pid) st) ! pid) = Some (Resolved None)"
    unfolding t(1) using p by simp
  show "timeoutId (children (step h (TimerFired pid) st) ! pid) = None"
    unfolding t(1) using p by simp
  show "\<not> onClose (children (step h (TimerFired pid) st) ! pid)"
    unfolding t(1) using p by simp
  show "\<not> onError (children (step h (TimerFired pid) st) ! pid)"
    unfolding t(1) using p by simp
  show "onData (children (step h (TimerFired pid) st) ! pid) = onData (children st ! pid)"
    unfolding t(1) using p by simp
  show "notices (step h (TimerFired pid) st) = notices st @ [str ''Preview startup timed out'']"
    by (rule t(2))
  show "map killCalls (children (step h (TimerFired pid) st)) = map killCalls (children st)"
    unfolding t(1) by (simp add: map_update) (metis list_update_id map_update)
  show "map killed (children (step h (TimerFired pid) st)) = map killed (children st)"
    unfolding t(1) by (simp add: map_update) (metis list_update_id map_update)
  show "activePreviewProcesses (step h (TimerFired pid) st) = activePreviewProcesses st"
    by (rule t(3))
qed

text \<open>
  The theorem at a start of \<open>notes/a.qmd\<close> in the web viewer mode whose process writes
  nothing.
\<close>

theorem timeout_resolves_null_witness:
  "0 < length (children (run desktop [Toggle (Some notesA)] (init webSettings))) \<and>
   timeoutId (children (run desktop [Toggle (Some notesA)] (init webSettings)) ! 0) \<noteq> None \<and>
   promise (children (run desktop [Toggle (Some notesA)] (init webSettings)) ! 0) = Some Pending \<and>
   promise (children (step desktop (TimerFired 0)
       (run desktop [Toggle (Some notesA)] (init webSettings))) ! 0) = Some (Resolved None) \<and>
   \<not> onClose (children (step desktop (TimerFired 0)
       (run desktop [Toggle (Some notesA)] (init webSettings))) ! 0) \<and>
   \<not> onError (children (step desktop (TimerFired 0)
       (run desktop [Toggle (Some notesA)] (init webSettings))) ! 0) \<and>
   map killCalls (children (step desktop (TimerFired 0)
       (run desktop [Toggle (Some notesA)] (init webSettings)))) = [0]"
proof -
  let ?st = "run desktop [Toggle (Some notesA)] (init webSettings)"
  have st: "0 < length (children ?st) \<and> timeoutId (children ?st ! 0) \<noteq> None \<and>
            promise (children ?st ! 0) = Some Pending"
    by (simp add: eval_defs)
  have k: "map killCalls (children ?st) = [0]"
    by (simp add: eval_defs)
  from timeout_resolves_null [of desktop notesA "init webSettings" 0 ?st] st
  have "promise (children (step desktop (TimerFired 0) ?st) ! 0) = Some (Resolved None) \<and>
        \<not> onClose (children (step desktop (TimerFired 0) ?st) ! 0) \<and>
        \<not> onError (children (step desktop (TimerFired 0) ?st) ! 0) \<and>
        map killCalls (children (step desktop (TimerFired 0) ?st)) = map killCalls (children ?st)"
    by blast
  with st k show ?thesis by simp
qed

text \<open>
  C1 as stated fails: the toggle starts a preview of \<open>notes/a.qmd\<close>, the process writes
  nothing and the timer fires.  The start ends with null and the notice, and the process has
  received no kill signal, not one; it is still in the registry.
\<close>

theorem timeout_kill_counterexample:
  "promise (children (run desktop [Toggle (Some notesA), TimerFired 0] (init webSettings)) ! 0) =
     Some (Resolved None) \<and>
   notices (run desktop [Toggle (Some notesA), TimerFired 0] (init webSettings)) =
     [str ''Preview startup timed out''] \<and>
   killCalls (children (run desktop [Toggle (Some notesA), TimerFired 0] (init webSettings)) ! 0) = 0 \<and>
   \<not> killed (children (run desktop [Toggle (Some notesA), TimerFired 0] (init webSettings)) ! 0) \<and>
   activePreviewProcesses (run desktop [Toggle (Some notesA), TimerFired 0] (init webSettings)) =
     [(str ''notes/a.qmd'', 0)]"
  by (simp add: eval_defs)

subsection \<open>C2: the readiness marker\<close>

text \<open>
  C2, as the code has it.  A chunk of stdout is accepted exactly when it contains
  \<open>Browse at\<close>, then one or more white space characters, then \<open>http://\<close> and at
  least one character that is not white space; \<open>https://\<close> is not accepted.  The URL taken
  is \<open>http://\<close> with the whole run of other characters after it, at the leftmost place of
  the chunk where the pattern matches.  A chunk that is accepted while the promise of the
  start is pending resolves it with that URL.
\<close>

theorem readiness_marker_http:
  "(previewUrlOf out \<noteq> None \<longleftrightarrow>
      (\<exists>pre ws c post.
          out = pre @ str ''Browse at'' @ ws @ str ''http://'' @ c # post \<and>
          ws \<noteq> [] \<and> list_all isWhiteSpace ws \<and> \<not> isWhiteSpace c)) \<and>
   (previewUrlOf out = Some u \<longleftrightarrow>
      (\<exists>pre ws rest post.
          out = pre @ str ''Browse at'' @ ws @ str ''http://'' @ rest @ post \<and>
          ws \<noteq> [] \<and> list_all isWhiteSpace ws \<and>
          rest \<noteq> [] \<and> list_all (\<lambda>c. \<not> isWhiteSpace c) rest \<and>
          (post = [] \<or> isWhiteSpace (hd post)) \<and>
          (\<forall>j<length pre. browseAtHere (drop j out) = None) \<and>
          u = str ''http://'' @ rest)) \<and>
   (pid < length (children st) \<and> onData (children st ! pid) \<and>
    promise (children st ! pid) = Some Pending \<and> previewUrlOf out = Some u \<longrightarrow>
      promise (children (step h (Stdout pid out) st) ! pid) = Some (Resolved (Some u)))"
proof (intro conjI)
  show "previewUrlOf out = Some u \<longleftrightarrow>
      (\<exists>pre ws rest post.
          out = pre @ str ''Browse at'' @ ws @ str ''http://'' @ rest @ post \<and>
          ws \<noteq> [] \<and> list_all isWhiteSpace ws \<and>
          rest \<noteq> [] \<and> list_all (\<lambda>c. \<not> isWhiteSpace c) rest \<and>
          (post = [] \<or> isWhiteSpace (hd post)) \<and>
          (\<forall>j<length pre. browseAtHere (drop j out) = None) \<and>
          u = str ''http://'' @ rest)" (is "?L \<longleftrightarrow> ?R")
  proof
    assume ?L
    then obtain pre t where e: "out = pre @ t" "browseAtHere t = Some u"
      "\<forall>j<length pre. browseAtHere (drop j out) = None"
      using regexMatch_Some_iff [of out u] by (auto simp: previewUrlOf_regexMatch)
    from browseAtHere_elim [OF e(2)] e(1,3) show ?R by blast
  next
    assume ?R
    then obtain pre ws rest post where
      o: "out = pre @ str ''Browse at'' @ ws @ str ''http://'' @ rest @ post" and
      c: "ws \<noteq> []" "list_all isWhiteSpace ws" "rest \<noteq> []"
         "list_all (\<lambda>c. \<not> isWhiteSpace c) rest" "post = [] \<or> isWhiteSpace (hd post)" and
      m: "\<forall>j<length pre. browseAtHere (drop j out) = None" and u: "u = str ''http://'' @ rest"
      by blast
    have "browseAtHere (str ''Browse at'' @ ws @ str ''http://'' @ rest @ post) = Some u"
      using browseAtHere_intro [OF refl c] u by simp
    with o m have "regexMatch out = Some u"
      using regexMatch_Some_iff [of out u] by blast
    then show ?L by (simp add: previewUrlOf_regexMatch)
  qed
next
  show "previewUrlOf out \<noteq> None \<longleftrightarrow>
      (\<exists>pre ws c post.
          out = pre @ str ''Browse at'' @ ws @ str ''http://'' @ c # post \<and>
          ws \<noteq> [] \<and> list_all isWhiteSpace ws \<and> \<not> isWhiteSpace c)" (is "?L \<longleftrightarrow> ?R")
  proof
    assume ?L
    then obtain v where "regexMatch out = Some v" by (auto simp: previewUrlOf_regexMatch)
    then obtain pre t where e: "out = pre @ t" "browseAtHere t = Some v"
      using regexMatch_Some_iff [of out v] by blast
    from browseAtHere_elim [OF e(2)] obtain ws rest post where
      t: "t = str ''Browse at'' @ ws @ str ''http://'' @ rest @ post" "ws \<noteq> []"
         "list_all isWhiteSpace ws" "rest \<noteq> []" "list_all (\<lambda>c. \<not> isWhiteSpace c) rest"
      by blast
    from t(4) obtain c rest' where r: "rest = c # rest'" by (cases rest) auto
    with t(5) have "\<not> isWhiteSpace c" by simp
    moreover have "out = pre @ str ''Browse at'' @ ws @ str ''http://'' @ c # (rest' @ post)"
      using e(1) t(1) r by simp
    ultimately show ?R using t(2,3) by blast
  next
    assume ?R
    then obtain pre ws c post where
      o: "out = pre @ str ''Browse at'' @ ws @ str ''http://'' @ c # post" and
      c: "ws \<noteq> []" "list_all isWhiteSpace ws" "\<not> isWhiteSpace c" by blast
    let ?rest = "c # takeWhile (\<lambda>c. \<not> isWhiteSpace c) post"
    let ?post = "dropWhile (\<lambda>c. \<not> isWhiteSpace c) post"
    have 1: "str ''Browse at'' @ ws @ str ''http://'' @ c # post =
             str ''Browse at'' @ ws @ str ''http://'' @ ?rest @ ?post" by simp
    have 2: "list_all (\<lambda>c. \<not> isWhiteSpace c) ?rest"
      using c(3) by (auto simp: list_all_iff dest: set_takeWhileD)
    have 3: "?post = [] \<or> isWhiteSpace (hd ?post)"
      using hd_dropWhile [of "\<lambda>c. \<not> isWhiteSpace c" post] by blast
    have 4: "?rest \<noteq> []" by simp
    have here: "browseAtHere (str ''Browse at'' @ ws @ str ''http://'' @ c # post) \<noteq> None"
      using browseAtHere_intro [OF 1 c(1,2) 4 2 3] by simp
    have "regexMatch (pre @ t) \<noteq> None" if "browseAtHere t \<noteq> None" for t
      using that by (induction pre) (auto split: option.splits, cases t, auto split: option.splits)
    with here o show ?L by (simp add: previewUrlOf_regexMatch)
  qed
next
  show "pid < length (children st) \<and> onData (children st ! pid) \<and>
    promise (children st ! pid) = Some Pending \<and> previewUrlOf out = Some u \<longrightarrow>
      promise (children (step h (Stdout pid out) st) ! pid) = Some (Resolved (Some u))"
    using stdout_marker_resolves by blast
qed

text \<open>
  The theorem at the chunk \<open>Browse at http://localhost:4000/\<close> with its line feed, written by
  the process of a pending start.
\<close>

theorem readiness_marker_http_witness:
  "previewUrlOf (str ''Browse at http://localhost:4000/'' @ [10]) =
     Some (str ''http://localhost:4000/'') \<and>
   0 < length (children (run desktop [Toggle (Some notesA)] (init webSettings))) \<and>
   onData (children (run desktop [Toggle (Some notesA)] (init webSettings)) ! 0) \<and>
   promise (children (run desktop [Toggle (Some notesA)] (init webSettings)) ! 0) = Some Pending \<and>
   promise (children (step desktop (Stdout 0 (str ''Browse at http://localhost:4000/'' @ [10]))
       (run desktop [Toggle (Some notesA)] (init webSettings))) ! 0) =
     Some (Resolved (Some (str ''http://localhost:4000/'')))"
proof -
  let ?st = "run desktop [Toggle (Some notesA)] (init webSettings)"
  have st: "0 < length (children ?st) \<and> onData (children ?st ! 0) \<and>
            promise (children ?st ! 0) = Some Pending"
    by (simp add: eval_defs)
  from readiness_marker_http
    [of "str ''Browse at http://localhost:4000/'' @ [10]" "str ''http://localhost:4000/''" 0 ?st desktop]
    marker_chunk st
  have "promise (children (step desktop (Stdout 0 (str ''Browse at http://localhost:4000/'' @ [10])) ?st) ! 0) =
     Some (Resolved (Some (str ''http://localhost:4000/'')))"
    by blast
  with marker_chunk st show ?thesis by blast
qed

text \<open>
  C2 as stated fails: the line \<open>Browse at https://localhost:4000/\<close> is a marker in the words
  of the specification, and the code does not accept it.
\<close>

theorem readiness_marker_https_counterexample:
  "spec_marker (str ''Browse at https://localhost:4000/'') = Some (str ''https://localhost:4000/'') \<and>
   previewUrlOf (str ''Browse at https://localhost:4000/'') = None"
  by (simp add: spec_markerHere_def previewUrlOf_def browseAtHere_def isWhiteSpace_def str_def)

subsection \<open>C3: the process closes before a marker\<close>

text \<open>
  C3, as the code has it.  When a process whose \<open>close\<close> listener is in place closes, the
  entry of its document key is deleted from the registry.  In src/main.ts nothing else
  happens: the exit code is not read (the step is the same for every code), no promise is
  settled, no timer is cleared and no notice is shown; a start that is pending stays pending
  until its timer fires, which resolves it with null and shows the notice of the timeout.
  In the older snapshots, whose \<open>startPreview\<close> has returned by then, the listener deletes
  the entry as well and shows the notice \<open>Quarto preview process exited with code N\<close> when
  the code N is neither null nor 0.
\<close>

theorem close_before_marker:
  "step h (ProcClose pid code) st = step h (ProcClose pid None) st \<and>
   (pid < length (children st) \<and> onClose (children st ! pid) \<longrightarrow>
      map_of (activePreviewProcesses (step h (ProcClose pid code) st))
        (capturedPath (children st ! pid)) = None \<and>
      map promise (children (step h (ProcClose pid code) st)) = map promise (children st) \<and>
      map timeoutId (children (step h (ProcClose pid code) st)) = map timeoutId (children st) \<and>
      notices (step h (ProcClose pid code) st) = notices st) \<and>
   (pid < length (children st) \<and> timeoutId (children st ! pid) \<noteq> None \<and>
    promise (children st ! pid) = Some Pending \<longrightarrow>
      promise (children (step h (TimerFired pid) (step h (ProcClose pid code) st)) ! pid) =
        Some (Resolved None) \<and>
      notices (step h (TimerFired pid) (step h (ProcClose pid code) st)) =
        notices st @ [str ''Preview startup timed out'']) \<and>
   map_of (processes (closeListener_part001 key code sn)) key = None \<and>
   messages (closeListener_part001 key code sn) =
     (case code of
        None \<Rightarrow> messages sn
      | Some n \<Rightarrow>
          if n = 0 then messages sn
          else messages sn @ [str ''Quarto preview process exited with code '' @ numberToString n])"
proof (intro conjI impI)
  show "step h (ProcClose pid code) st = step h (ProcClose pid None) st"
    by simp
next
  assume a: "pid < length (children st) \<and> onClose (children st ! pid)"
  then show "map_of (activePreviewProcesses (step h (ProcClose pid code) st))
        (capturedPath (children st ! pid)) = None"
    by (simp add: closeListener_def Let_def AList.delete_conv)
  from a show "map promise (children (step h (ProcClose pid code) st)) = map promise (children st)"
    by (simp add: closeListener_def Let_def)
  from a show "map timeoutId (children (step h (ProcClose pid code) st)) = map timeoutId (children st)"
    by (simp add: closeListener_def Let_def)
  from a show "notices (step h (ProcClose pid code) st) = notices st"
    by (simp add: closeListener_def Let_def)
next
  assume a: "pid < length (children st) \<and> timeoutId (children st ! pid) \<noteq> None \<and>
    promise (children st ! pid) = Some Pending"
  let ?st1 = "step h (ProcClose pid code) st"
  have c: "children ?st1 = (children st)[pid := (children st ! pid)\<lparr>handle := False\<rparr>]"
    and n: "notices ?st1 = notices st"
    using a
    by (cases "onClose (children st ! pid)"; simp add: closeListener_def Let_def updChild_def)+
  have 1: "pid < length (children ?st1)" unfolding c using a by simp
  have 2: "timeoutId (children ?st1 ! pid) \<noteq> None" unfolding c using a by simp
  have 3: "promise (children ?st1 ! pid) = Some Pending" unfolding c using a by simp
  note t = timerFired_pending [of pid ?st1 h, OF 1 2 3]
  show "promise (children (step h (TimerFired pid) ?st1) ! pid) = Some (Resolved None)"
    unfolding t(1) using 1 by simp
  show "notices (step h (TimerFired pid) ?st1) = notices st @ [str ''Preview startup timed out'']"
    unfolding t(2) n by (rule refl)
next
  show "map_of (processes (closeListener_part001 key code sn)) key = None"
    by (simp add: closeListener_part001_def Let_def AList.delete_conv)
  show "messages (closeListener_part001 key code sn) =
     (case code of
        None \<Rightarrow> messages sn
      | Some n \<Rightarrow>
          if n = 0 then messages sn
          else messages sn @ [str ''Quarto preview process exited with code '' @ numberToString n])"
    by (simp add: closeListener_part001_def Let_def split: option.splits)
qed

text \<open>
  The theorem at a pending start of \<open>notes/a.qmd\<close> whose process exits with code 1, and at
  the listener of the older snapshots with the same exit code.
\<close>

theorem close_before_marker_witness:
  "0 < length (children (run desktop [Toggle (Some notesA)] (init webSettings))) \<and>
   onClose (children (run desktop [Toggle (Some notesA)] (init webSettings)) ! 0) \<and>
   timeoutId (children (run desktop [Toggle (Some notesA)] (init webSettings)) ! 0) \<noteq> None \<and>
   promise (children (run desktop [Toggle (Some notesA)] (init webSettings)) ! 0) = Some Pending \<and>
   capturedPath (children (run desktop [Toggle (Some notesA)] (init webSettings)) ! 0) =
     str ''notes/a.qmd'' \<and>
   map_of (activePreviewProcesses (step desktop (ProcClose 0 (Some 1))
       (run desktop [Toggle (Some notesA)] (init webSettings)))) (str ''notes/a.qmd'') = None \<and>
   map promise (children (step desktop (ProcClose 0 (Some 1))
       (run desktop [Toggle (Some notesA)] (init webSettings)))) = [Some Pending] \<and>
   promise (children (step desktop (TimerFired 0) (step desktop (ProcClose 0 (Some 1))
       (run desktop [Toggle (Some notesA)] (init webSettings)))) ! 0) = Some (Resolved None) \<and>
   notices (step desktop (TimerFired 0) (step desktop (ProcClose 0 (Some 1))
       (run desktop [Toggle (Some notesA)] (init webSettings)))) = [str ''Preview startup timed out''] \<and>
   messages (closeListener_part001 (str ''notes/a.qmd'') (Some 1) \<lparr>processes = [], messages = []\<rparr>) =
     [str ''Quarto preview process exited with code 1'']"
proof -
  let ?st = "run desktop [Toggle (Some notesA)] (init webSettings)"
  have st: "0 < length (children ?st) \<and> onClose (children ?st ! 0)"
    and tp: "0 < length (children ?st) \<and> timeoutId (children ?st ! 0) \<noteq> None \<and>
        promise (children ?st ! 0) = Some Pending"
    by (simp_all add: eval_defs)
  have c: "capturedPath (children ?st ! 0) = str ''notes/a.qmd''"
    by (simp add: eval_defs)
  have p: "map promise (children ?st) = [Some Pending]"
    by (simp add: eval_defs)
  have n: "notices ?st = []"
    by (simp add: eval_defs)
  have d: "numberToString 1 = str ''1''"
    by (simp add: numberToString_def digitsOf.simps [of "Suc 0"] str_def)
  note cb = close_before_marker [of desktop 0 "Some 1" ?st "str ''notes/a.qmd''"
      "\<lparr>processes = [], messages = []\<rparr>"]
  from cb st
  have 1: "map_of (activePreviewProcesses (step desktop (ProcClose 0 (Some 1)) ?st))
          (capturedPath (children ?st ! 0)) = None \<and>
        map promise (children (step desktop (ProcClose 0 (Some 1)) ?st)) = map promise (children ?st)"
    by blast
  from cb tp
  have 2: "promise (children (step desktop (TimerFired 0)
          (step desktop (ProcClose 0 (Some 1)) ?st)) ! 0) = Some (Resolved None) \<and>
        notices (step desktop (TimerFired 0) (step desktop (ProcClose 0 (Some 1)) ?st)) =
          notices ?st @ [str ''Preview startup timed out'']"
    by blast
  from cb
  have 3: "messages (closeListener_part001 (str ''notes/a.qmd'') (Some 1)
          \<lparr>processes = [], messages = []\<rparr>) =
        [str ''Quarto preview process exited with code '' @ numberToString 1]"
    by simp
  have 4: "str ''Quarto preview process exited with code '' @ str ''1'' =
        str ''Quarto preview process exited with code 1''"
    by (simp add: str_def)
  from st tp c p n 1 2 3 show ?thesis by (simp add: d 4)
qed

text \<open>
  C3 as stated fails: the process of a pending start exits with code 1.  The start has not
  failed, it is still pending and no notice is shown; the state is the one reached with exit
  code 2, so no exit code is carried; when the timer fires the start ends with null and the
  notice of the timeout.
\<close>

theorem close_crash_counterexample:
  "promise (children (run desktop [Toggle (Some notesA), ProcClose 0 (Some 1)] (init webSettings)) ! 0) =
     Some Pending \<and>
   notices (run desktop [Toggle (Some notesA), ProcClose 0 (Some 1)] (init webSettings)) = [] \<and>
   run desktop [Toggle (Some notesA), ProcClose 0 (Some 1)] (init webSettings) =
     run desktop [Toggle (Some notesA), ProcClose 0 (Some 2)] (init webSettings) \<and>
   promise (children (run desktop [Toggle (Some notesA), ProcClose 0 (Some 1), TimerFired 0]
       (init webSettings)) ! 0) = Some (Resolved None) \<and>
   notices (run desktop [Toggle (Some notesA), ProcClose 0 (Some 1), TimerFired 0] (init webSettings)) =
     [str ''Preview startup timed out'']"
  by (simp add: eval_defs)

subsection \<open>C4: stopping all previews\<close>

text \<open>
  What \<open>stopAllPreviews\<close> does reach.  After any sequence of events from the initial state
  it leaves the registry empty; every process that the registry holds at that moment had not
  been killed before and has \<^verbatim>\<open>kill()\<close> invoked on it exactly once, which sets \<open>killed\<close>
  when the process has its handle; every other process is as before.
\<close>

theorem stopAllPreviews_teardown:
  "activePreviewProcesses (stopAllPreviews (run h evs (init s))) = [] \<and>
   length (children (stopAllPreviews (run h evs (init s)))) = length (children (run h evs (init s))) \<and>
   (\<forall>pid\<in>set (registered (run h evs (init s))).
      pid < length (children (run h evs (init s))) \<and>
      \<not> killed (children (run h evs (init s)) ! pid) \<and>
      killCalls (children (stopAllPreviews (run h evs (init s))) ! pid) = 1 \<and>
      killed (children (stopAllPreviews (run h evs (init s))) ! pid) =
        (handle (children (run h evs (init s)) ! pid))) \<and>
   (\<forall>pid. pid \<notin> set (registered (run h evs (init s))) \<longrightarrow>
      children (stopAllPreviews (run h evs (init s))) ! pid = children (run h evs (init s)) ! pid)"
proof -
  let ?st = "run h evs (init s)"
  have ok: "registryOk ?st" by (simp add: registryOk_run registryOk_init)
  then have d: "distinct (registered ?st)"
    and r: "\<And>p. p \<in> set (registered ?st) \<Longrightarrow>
      p < length (children ?st) \<and> \<not> killed (children ?st ! p) \<and> killCalls (children ?st ! p) = 0"
    by (simp_all add: registryOk_def list_all_iff)
  have f: "length (children (fold killUnlessKilled (registered ?st) ?st)) = length (children ?st) \<and>
    (\<forall>p\<in>set (registered ?st). children (fold killUnlessKilled (registered ?st) ?st) ! p =
      (children ?st ! p)\<lparr>killCalls := Suc (killCalls (children ?st ! p)),
         killed := handle (children ?st ! p)\<rparr>) \<and>
    (\<forall>q. q \<notin> set (registered ?st) \<longrightarrow>
        children (fold killUnlessKilled (registered ?st) ?st) ! q = children ?st ! q)"
    using r by (intro fold_killUnlessKilled [OF d]) blast
  have c: "children (stopAllPreviews ?st) = children (fold killUnlessKilled (registered ?st) ?st)"
    by (simp add: stopAllPreviews_def registered_def)
  show ?thesis using f r by (simp add: c)
qed

text \<open>
  C4 fails for a process that was registered and has lost its entry while it runs.
  First run, in the web viewer mode: the start of \<open>notes/a.qmd\<close> times out, the process 0
  stays in the registry, and the next toggle starts again without looking the key up, so
  that process 1 takes the entry.  Second run, in the external mode: the preview is stopped
  and started again before the stopped process 0 has closed; when it closes, its listener
  deletes the key, which by then stands for process 1.  In both runs \<open>stopAllPreviews\<close>
  leaves the registry empty, and the process that lost its entry still has its handle, is
  not killed, and has had no \<^verbatim>\<open>kill()\<close> at all.
\<close>

theorem stopAllPreviews_misses_orphan:
  "registered (run desktop [Toggle (Some notesA)] (init webSettings)) = [0] \<and>
   registered (run desktop [Toggle (Some notesA), TimerFired 0, Toggle (Some notesA)]
     (init webSettings)) = [1] \<and>
   activePreviewProcesses (stopAllPreviews (run desktop
     [Toggle (Some notesA), TimerFired 0, Toggle (Some notesA)] (init webSettings))) = [] \<and>
   handle (children (stopAllPreviews (run desktop
     [Toggle (Some notesA), TimerFired 0, Toggle (Some notesA)] (init webSettings))) ! 0) \<and>
   \<not> killed (children (stopAllPreviews (run desktop
     [Toggle (Some notesA), TimerFired 0, Toggle (Some notesA)] (init webSettings))) ! 0) \<and>
   killCalls (children (stopAllPreviews (run desktop
     [Toggle (Some notesA), TimerFired 0, Toggle (Some notesA)] (init webSettings))) ! 0) = 0 \<and>
   killCalls (children (stopAllPreviews (run desktop
     [Toggle (Some notesA), TimerFired 0, Toggle (Some notesA)] (init webSettings))) ! 1) = 1 \<and>
   registered (run desktop [Toggle (Some notesA), Toggle (Some notesA), Toggle (Some notesA)]
     (init externalSettings)) = [1] \<and>
   registered (run desktop
     [Toggle (Some notesA), Toggle (Some notesA), Toggle (Some notesA), ProcClose 0 None]
     (init externalSettings)) = [] \<and>
   handle (children (stopAllPreviews (run desktop
     [Toggle (Some notesA), Toggle (Some notesA), Toggle (Some notesA), ProcClose 0 None]
     (init externalSettings))) ! 1) \<and>
   \<not> killed (children (stopAllPreviews (run desktop
     [Toggle (Some notesA), Toggle (Some notesA), Toggle (Some notesA), ProcClose 0 None]
     (init externalSettings))) ! 1) \<and>
   killCalls (children (stopAllPreviews (run desktop
     [Toggle (Some notesA), Toggle (Some notesA), Toggle (Some notesA), ProcClose 0 None]
     (init externalSettings))) ! 1) = 0"
  by (simp add: registered_def eval_defs externalSettings_def)

subsection \<open>C5: a second start\<close>

text \<open>
  \<open>startPreview\<close> looks the key up: on a key that the registry holds it spawns nothing and
  changes nothing, so that starting twice in a row is starting once.
\<close>

theorem startPreview_twice:
  "startPreview h f (startPreview h f st) = startPreview h f st \<and>
   (map_of (activePreviewProcesses st) (path f) \<noteq> None \<longrightarrow> startPreview h f st = st)"
proof
  show "startPreview h f (startPreview h f st) = startPreview h f st"
  proof (cases "map_of (activePreviewProcesses st) (path f)")
    case (Some pid)
    then show ?thesis by (simp add: startPreview_def)
  next
    case None
    have "map_of (activePreviewProcesses (startPreview h f st)) (path f) \<noteq> None"
      by (simp add: startPreview_child [OF None] AList.update_conv')
    then show ?thesis by (subst startPreview_def) simp
  qed
next
  show "map_of (activePreviewProcesses st) (path f) \<noteq> None \<longrightarrow> startPreview h f st = st"
    by (simp add: startPreview_def)
qed

text \<open>
  C5 fails on \<open>startPreviewAndGetUrl\<close>, which does not look the key up as \<open>startPreview\<close>
  does.  On a host that yields no pane, a start of \<open>notes/a.qmd\<close> ends with its endpoint and
  the key is in the registry; the next toggle starts again: a second process is spawned, its
  start is pending, and the registry holds the second process in place of the first.
\<close>

theorem second_start_spawns_again:
  "promise (children (run noPane
       [Toggle (Some notesA), Stdout 0 (str ''Browse at http://localhost:4000/'' @ [10])]
       (init webSettings)) ! 0) = Some (Resolved (Some (str ''http://localhost:4000/''))) \<and>
   activePreviewProcesses (run noPane
       [Toggle (Some notesA), Stdout 0 (str ''Browse at http://localhost:4000/'' @ [10])]
       (init webSettings)) = [(str ''notes/a.qmd'', 0)] \<and>
   length (children (run noPane
       [Toggle (Some notesA), Stdout 0 (str ''Browse at http://localhost:4000/'' @ [10]),
        Toggle (Some notesA)] (init webSettings))) = 2 \<and>
   promise (children (run noPane
       [Toggle (Some notesA), Stdout 0 (str ''Browse at http://localhost:4000/'' @ [10]),
        Toggle (Some notesA)] (init webSettings)) ! 1) = Some Pending \<and>
   activePreviewProcesses (run noPane
       [Toggle (Some notesA), Stdout 0 (str ''Browse at http://localhost:4000/'' @ [10]),
        Toggle (Some notesA)] (init webSettings)) = [(str ''notes/a.qmd'', 1)]"
  by (simp add: eval_defs noPane_def marker_chunk)

subsection \<open>C6: stopping twice\<close>

text \<open>
  C6.  \<open>stopPreview\<close> twice in a row gives the state that \<open>stopPreview\<close> once gives, and
  on a key that the registry does not hold it changes nothing.  The function is total: no
  call fails.
\<close>

theorem stopPreview_twice:
  "stopPreview f (stopPreview f st) = stopPreview f st \<and>
   (map_of (activePreviewProcesses st) (path f) = None \<longrightarrow> stopPreview f st = st)"
  using stopPreview_absent [OF stopPreview_removes, of f st] stopPreview_absent [of st f]
  by simp

text \<open>The theorem at a running preview of \<open>notes/a.qmd\<close> and at the initial state.\<close>

theorem stopPreview_twice_witness:
  "stopPreview notesA (stopPreview notesA (startPreview desktop notesA (init webSettings))) =
     stopPreview notesA (startPreview desktop notesA (init webSettings)) \<and>
   map_of (activePreviewProcesses (init webSettings)) (path notesA) = None \<and>
   stopPreview notesA (init webSettings) = init webSettings"
proof -
  have "map_of (activePreviewProcesses (init webSettings)) (path notesA) = None"
    by (simp add: init_def)
  with stopPreview_twice [of notesA "startPreview desktop notesA (init webSettings)"]
    stopPreview_twice [of notesA "init webSettings"]
  show ?thesis by blast
qed

subsection \<open>C7: the arguments of the spawn\<close>

text \<open>
  In src/main.ts both \<open>startPreviewAndGetUrl\<close> and \<open>startPreview\<close> launch the configured
  executable with the arguments \<open>preview\<close> and the full path of the document, in the directory
  of that full path.
\<close>

theorem spawn_arguments_main:
  "spawnfile (children (snd (startPreviewAndGetUrl h f st)) ! fst (startPreviewAndGetUrl h f st)) =
     quartoPath (settings st) \<and>
   spawnargs (children (snd (startPreviewAndGetUrl h f st)) ! fst (startPreviewAndGetUrl h f st)) =
     [str ''preview'', getFullPath h (path f)] \<and>
   spawncwd (children (snd (startPreviewAndGetUrl h f st)) ! fst (startPreviewAndGetUrl h f st)) =
     dirname h (getFullPath h (path f)) \<and>
   (map_of (activePreviewProcesses st) (path f) = None \<longrightarrow>
      length (children (startPreview h f st)) = Suc (length (children st)) \<and>
      spawnfile (children (startPreview h f st) ! length (children st)) = quartoPath (settings st) \<and>
      spawnargs (children (startPreview h f st) ! length (children st)) =
        [str ''preview'', getFullPath h (path f)] \<and>
      spawncwd (children (startPreview h f st) ! length (children st)) =
        dirname h (getFullPath h (path f)))"
  by (simp add: startPreviewAndGetUrl_child startPreview_child)

text \<open>The theorem at \<open>notes/a.qmd\<close> in the vault at \<open>/vault\<close>.\<close>

theorem spawn_arguments_main_witness:
  "map_of (activePreviewProcesses (init externalSettings)) (path notesA) = None \<and>
   spawnargs (children (startPreview desktop notesA (init externalSettings)) ! 0) =
     [str ''preview'', str ''/vault/notes/a.qmd''] \<and>
   spawncwd (children (startPreview desktop notesA (init externalSettings)) ! 0) = str ''/vault/notes''"
proof -
  have a: "map_of (activePreviewProcesses (init externalSettings)) (path notesA) = None"
    and l: "length (children (init externalSettings)) = 0"
    by (simp_all add: init_def)
  have g: "getFullPath desktop (path notesA) = str ''/vault/notes/a.qmd''"
    and d: "dirname desktop (str ''/vault/notes/a.qmd'') = str ''/vault/notes''"
    by (simp_all add: desktop_def notesA_def dropLastSegment_def str_def)
  from spawn_arguments_main [of desktop notesA "init externalSettings"] a
  show ?thesis by (simp add: l g d)
qed

text \<open>
  C7 fails on the \<open>startPreview\<close> of src/unnamed/part_001: it computes the full path, uses
  it for the working directory only, and passes \<^verbatim>\<open>file.path\<close>, the path inside the vault.
  For \<open>notes/a.qmd\<close> the argument is \<open>notes/a.qmd\<close>, not \<open>/vault/notes/a.qmd\<close>, and the
  working directory is \<open>/vault/notes\<close>.
\<close>

theorem startPreview_part001_relative_path:
  "processes (startPreview_part001 desktop (str ''quarto'') notesA \<lparr>processes = [], messages = []\<rparr>) =
     [(str ''notes/a.qmd'',
       \<lparr>command = str ''quarto'', args = [str ''preview'', str ''notes/a.qmd''],
        cwd = str ''/vault/notes'', shell = True, env = processEnv desktop\<rparr>)] \<and>
   getFullPath desktop (path notesA) = str ''/vault/notes/a.qmd'' \<and>
   str ''notes/a.qmd'' \<noteq> str ''/vault/notes/a.qmd''"
  by (simp add: startPreview_part001_def notesA_def desktop_def dropLastSegment_def Let_def str_def)

subsection \<open>C8: the environment of the child\<close>

lemma envVars_merge: "envVars h t = processEnv h ++ overrides t"
  by (simp add: envVars_def overrides_def)

text \<open>
  C8.  In the snapshot with the QUARTO_TYPST setting the environment passed to \<open>spawn\<close> is
  the inherited one merged with the configured overrides: a key that is overridden has the
  override's value, every other key has the inherited value, and without an override the
  environment is the inherited one.  The process that \<open>startPreview\<close> registers there is
  spawned with it.  In src/main.ts and in src/unnamed/part_001, which have no overrides,
  \<open>spawn\<close> is given no environment and the child has the inherited one.
\<close>

theorem child_environment:
  "envVars h t = processEnv h ++ overrides t \<and>
   envVars h t k = (case overrides t k of Some v \<Rightarrow> Some v | None \<Rightarrow> processEnv h k) \<and>
   (overrides t = Map.empty \<longrightarrow> envVars h t = processEnv h) \<and>
   (map_of (processes st) (path f) = None \<and> lookup (path f) = Some af \<longrightarrow>
      map_option env (map_of (processes (startPreview_typst h lookup q t f st)) (path f)) =
        Some (envVars h t)) \<and>
   spawnenv (children (snd (spawn h c a d pst)) ! fst (spawn h c a d pst)) = processEnv h \<and>
   (map_of (processes st) (path f) = None \<longrightarrow>
      map_option env (map_of (processes (startPreview_part001 h q f st)) (path f)) =
        Some (processEnv h))"
  by (simp add: envVars_merge map_add_def startPreview_typst_def startPreview_part001_def
      spawn_def Let_def AList.update_conv' split: option.splits)

text \<open>
  The theorem with QUARTO_TYPST inherited as \<open>/old/typst\<close>: a blank setting leaves the
  environment as inherited, the setting \<open>/opt/typst\<close> with blanks around it replaces the
  inherited value and leaves PATH alone.
\<close>

theorem child_environment_witness:
  "overrides (str ''  '') = Map.empty \<and>
   envVars (desktop\<lparr>processEnv := typstEnv\<rparr>) (str ''  '') = typstEnv \<and>
   envVars (desktop\<lparr>processEnv := typstEnv\<rparr>) (str '' /opt/typst '') (str ''QUARTO_TYPST'') =
     Some (str ''/opt/typst'') \<and>
   envVars (desktop\<lparr>processEnv := typstEnv\<rparr>) (str '' /opt/typst '') (str ''PATH'') =
     Some (str ''/usr/bin'') \<and>
   map_of (processes \<lparr>processes = [], messages = []\<rparr>) (path notesA) = None \<and>
   map_option env (map_of (processes (startPreview_typst (desktop\<lparr>processEnv := typstEnv\<rparr>)
       (\<lambda>p. Some notesA) (str ''quarto'') (str '' /opt/typst '') notesA
       \<lparr>processes = [], messages = []\<rparr>)) (path notesA)) =
     Some (envVars (desktop\<lparr>processEnv := typstEnv\<rparr>) (str '' /opt/typst ''))"
proof -
  let ?h = "desktop\<lparr>processEnv := typstEnv\<rparr>"
  have o: "overrides (str ''  '') = Map.empty"
    by (simp add: overrides_def trim_def isWhiteSpace_def str_def)
  have t: "overrides (str '' /opt/typst '') = [str ''QUARTO_TYPST'' \<mapsto> str ''/opt/typst'']"
    by (simp add: overrides_def trim_def isWhiteSpace_def str_def)
  have tP: "overrides (str '' /opt/typst '') (str ''PATH'') = None"
    by (simp add: t) (simp add: str_def)
  have pe: "typstEnv (str ''PATH'') = Some (str ''/usr/bin'')"
    by (simp add: typstEnv_def) (simp add: str_def)
  have e: "map_of (processes \<lparr>processes = [], messages = []\<rparr>) (path notesA) = None" by simp
  have 1: "envVars ?h (str ''  '') = typstEnv"
    using child_environment [where h = ?h and t = "str ''  ''",
        THEN conjunct2, THEN conjunct2, THEN conjunct1] o
    by simp
  have 2: "envVars ?h (str '' /opt/typst '') (str ''QUARTO_TYPST'') = Some (str ''/opt/typst'')"
    using child_environment [where h = ?h and t = "str '' /opt/typst ''" and k = "str ''QUARTO_TYPST''",
        THEN conjunct2, THEN conjunct1]
    by (simp add: t)
  have 3: "envVars ?h (str '' /opt/typst '') (str ''PATH'') = Some (str ''/usr/bin'')"
    using child_environment [where h = ?h and t = "str '' /opt/typst ''" and k = "str ''PATH''",
        THEN conjunct2, THEN conjunct1]
    by (simp add: tP pe)
  have 4: "map_option env (map_of (processes (startPreview_typst ?h (\<lambda>p. Some notesA) (str ''quarto'')
      (str '' /opt/typst '') notesA \<lparr>processes = [], messages = []\<rparr>)) (path notesA)) =
     Some (envVars ?h (str '' /opt/typst ''))"
    using child_environment [where h = ?h and t = "str '' /opt/typst ''" and f = notesA
        and st = "\<lparr>processes = [], messages = []\<rparr>" and lookup = "\<lambda>p. Some notesA"
        and af = notesA and q = "str ''quarto''",
        THEN conjunct2, THEN conjunct2, THEN conjunct2, THEN conjunct1] e
    by simp
  from o 1 2 3 e 4 show ?thesis by blast
qed

subsection \<open>C9: which files are Quarto documents\<close>

text \<open>
  C9.  \<open>isQuartoFile\<close> holds exactly of the files whose extension is \<open>qmd\<close> in lower case;
  \<open>QMD\<close> is refused.  On a file it refuses, the toggle callback shows the notice
  \<open>Current file is not a Quarto document\<close> and does nothing else: no process is spawned and
  the registry and the viewers are as before.
\<close>

theorem isQuartoFile_exact:
  "(isQuartoFile f \<longleftrightarrow> extension f = str ''qmd'') \<and>
   \<not> isQuartoFile (f\<lparr>extension := str ''QMD''\<rparr>) \<and>
   (\<not> isQuartoFile f \<longrightarrow>
      toggleCallback h (Some f) st = notice (str ''Current file is not a Quarto document'') st \<and>
      children (toggleCallback h (Some f) st) = children st \<and>
      activePreviewProcesses (toggleCallback h (Some f) st) = activePreviewProcesses st \<and>
      activeWebViewers (toggleCallback h (Some f) st) = activeWebViewers st)"
  by (simp add: toggleCallback_def isQuartoFile_def notice_def) (simp add: str_def)

text \<open>The theorem at \<open>notes/a.QMD\<close>.\<close>

theorem isQuartoFile_exact_witness:
  "\<not> isQuartoFile \<lparr>path = str ''notes/a.QMD'', extension = str ''QMD''\<rparr> \<and>
   notices (toggleCallback desktop (Some \<lparr>path = str ''notes/a.QMD'', extension = str ''QMD''\<rparr>)
      (init webSettings)) = [str ''Current file is not a Quarto document''] \<and>
   children (toggleCallback desktop (Some \<lparr>path = str ''notes/a.QMD'', extension = str ''QMD''\<rparr>)
      (init webSettings)) = [] \<and>
   activePreviewProcesses (toggleCallback desktop
      (Some \<lparr>path = str ''notes/a.QMD'', extension = str ''QMD''\<rparr>) (init webSettings)) = []"
proof -
  let ?f = "\<lparr>path = str ''notes/a.QMD'', extension = str ''QMD''\<rparr>"
  have n: "\<not> isQuartoFile ?f"
    using isQuartoFile_exact [of ?f desktop "init webSettings"] by (simp add: str_def)
  with isQuartoFile_exact [of ?f desktop "init webSettings"]
  have "toggleCallback desktop (Some ?f) (init webSettings) =
        notice (str ''Current file is not a Quarto document'') (init webSettings)"
    by blast
  with n show ?thesis by (simp add: notice_def init_def)
qed

subsection \<open>C10: loading the settings\<close>

text \<open>
  C10.  With no persisted data \<open>loadSettings\<close> gives the defaults.  With persisted data,
  every property the data has takes the persisted value and every other property its
  default; the one key that is no field of an object, \<open>__proto__\<close>, yields no property.
  The defaults are \<open>quartoPath\<close> quarto, \<open>autoPreview\<close> false, \<open>enableQmdLinking\<close> false
  and \<open>useWebViewer\<close> true.  \<open>loadSettings\<close> is total.
\<close>

theorem loadSettings_merge:
  "loadSettings None = DEFAULT_SETTINGS \<and>
   (distinct (map fst d) \<longrightarrow>
      map_of (loadSettings (Some d)) k =
        (if k = str ''__proto__'' then None
         else (case map_of d k of Some v \<Rightarrow> Some v | None \<Rightarrow> map_of DEFAULT_SETTINGS k))) \<and>
   map_of DEFAULT_SETTINGS (str ''quartoPath'') = Some (JString (str ''quarto'')) \<and>
   map_of DEFAULT_SETTINGS (str ''autoPreview'') = Some (JBool False) \<and>
   map_of DEFAULT_SETTINGS (str ''enableQmdLinking'') = Some (JBool False) \<and>
   map_of DEFAULT_SETTINGS (str ''useWebViewer'') = Some (JBool True)"
  using loadSettings_None loadSettings_Some [of d k]
  by (simp add: DEFAULT_SETTINGS_def str_def)

text \<open>
  The theorem at persisted data that hold \<open>autoPreview\<close> and, under \<open>__proto__\<close>, an object
  with a \<open>quartoPath\<close>.
\<close>

theorem loadSettings_merge_witness:
  "distinct (map fst [(str ''autoPreview'', JBool True),
      (str ''__proto__'', JObject [(str ''quartoPath'', JString (str ''sh''))])]) \<and>
   map_of (loadSettings (Some [(str ''autoPreview'', JBool True),
      (str ''__proto__'', JObject [(str ''quartoPath'', JString (str ''sh''))])])) (str ''autoPreview'') =
     Some (JBool True) \<and>
   map_of (loadSettings (Some [(str ''autoPreview'', JBool True),
      (str ''__proto__'', JObject [(str ''quartoPath'', JString (str ''sh''))])])) (str ''quartoPath'') =
     Some (JString (str ''quarto'')) \<and>
   map_of (loadSettings (Some [(str ''autoPreview'', JBool True),
      (str ''__proto__'', JObject [(str ''quartoPath'', JString (str ''sh''))])])) (str ''useWebViewer'') =
     Some (JBool True) \<and>
   map_of (loadSettings (Some [(str ''autoPreview'', JBool True),
      (str ''__proto__'', JObject [(str ''quartoPath'', JString (str ''sh''))])])) (str ''__proto__'') =
     None"
proof -
  let ?d = "[(str ''autoPreview'', JBool True),
      (str ''__proto__'', JObject [(str ''quartoPath'', JString (str ''sh''))])]"
  have d: "distinct (map fst ?d)" by (simp add: str_def)
  have 1: "map_of ?d (str ''autoPreview'') = Some (JBool True)" by simp
  have 2: "map_of ?d (str ''quartoPath'') = None" by (simp add: str_def)
  have 3: "map_of ?d (str ''useWebViewer'') = None" by (simp add: str_def)
  have n: "str ''autoPreview'' \<noteq> str ''__proto__''" "str ''quartoPath'' \<noteq> str ''__proto__''"
    "str ''useWebViewer'' \<noteq> str ''__proto__''"
    by (simp_all add: str_def)
  from loadSettings_merge [of ?d "str ''autoPreview''"] loadSettings_merge [of ?d "str ''quartoPath''"]
    loadSettings_merge [of ?d "str ''useWebViewer''"] loadSettings_merge [of ?d "str ''__proto__''"]
    d 1 2 3 n
  show ?thesis by simp
qed

end
